theory Spec2Isabelle
  imports Complex_Main "HOL-Library.Word" "HOL-Library.Multiset"
begin

unbundle bit_operations_syntax

section \<open>EratBig: the bucket sieve for big sieving primes\<close>

text \<open>
  A shallow embedding of \<^verbatim>\<open>src/soe/EratBig.cpp\<close>. The engine keeps its buckets in
  singly linked lists threaded through the C++ heap, so the model has an explicit store:
  the buckets the engine has allocated are the elements of a list, a bucket's address is
  its index in that list, and a pointer is an optional address (\<open>None\<close> is \<open>NULL\<close>).
  The type \<open>uint_t\<close> of the source is an unsigned machine integer whose width is fixed
  in a header outside these sources; it is modelled as \<open>'a word\<close> for any width \<open>'a\<close>,
  so that \<open>+\<close> and \<open>*\<close> wrap around as they do in C++.
  Undefined behaviour of the C++ (a null or dangling pointer dereferenced, an index
  outside a vector or array) and the one exception the file throws are values of the
  type \<open>error\<close>. Allocation with \<open>new\<close> is taken to succeed.
  A data member \<^verbatim>\<open>x_\<close> of the source is the field \<open>x_m\<close> of the model.
\<close>

subsection \<open>Data\<close>

type_synonym addr = nat
type_synonym ptr = "addr option"

text \<open>A sieving prime as stored in a bucket: (sievingPrime, multipleIndex, wheelIndex).\<close>

type_synonym 'a WheelPrime = "'a word \<times> 'a word \<times> 'a word"

type_synonym sieve = "8 word list"

datatype error =
    InvalidArgument
  | NullDereference
  | DanglingPointer
  | IndexOutOfRange
  | BucketOverflow
  | SieveOutOfRange
  | EmptySlab

text \<open>
  Modelled from the spec: the class \<open>Bucket\<close> (declared in \<^verbatim>\<open>EratBig.h\<close> and
  \<^verbatim>\<open>WheelFactorization.h\<close>, which are not among the sources). The spec calls it a
  fixed-capacity array of sieving-prime triples linked into a per-segment list, empty when
  it has written zero triples since its reset. The field \<open>wheelPrimes\<close> holds the
  triples between \<open>begin()\<close> and \<open>end()\<close>.
\<close>

record (overloaded) 'a Bucket =
  wheelPrimes :: "'a WheelPrime list"
  next_m :: ptr

text \<open>
  Modelled from the spec: one entry of the wheel table (\<^verbatim>\<open>WheelFactorization.h\<close>): the
  bit mask to clear in the target byte, the factor and the byte stride that give the
  next multiple, and the next wheel index.
\<close>

record (overloaded) 'a WheelElement =
  unsetBitMask :: "8 word"
  nextMultipleFactor :: "'a word"
  correct :: "'a word"
  nextWheelIndex :: "'a word"

text \<open>
  The constants and tables that \<^verbatim>\<open>EratBig.cpp\<close> uses and that are declared elsewhere
  are parameters of the model: the capacity of a bucket, the number of buckets of one
  allocation, the modulo 210 wheel table and its largest factor.
\<close>

record (overloaded) 'a Config =
  BUCKETSIZE :: nat
  BUCKETS_PER_ALLOC :: nat
  WHEEL :: "'a word \<Rightarrow> 'a WheelElement"
  getMaxFactor :: "'a word"

text \<open>The part of \<open>SieveOfEratosthenes\<close> that the constructor of EratBig reads.\<close>

record (overloaded) 'a SieveOfEratosthenes =
  getSieveSize :: "'a word"
  getSqrtStop :: "'a word"

definition NUMBERS_PER_BYTE :: "'a::len word" where
  "NUMBERS_PER_BYTE = 30"

text \<open>
  The state of an EratBig object. \<open>heap\<close> holds every bucket the object has allocated,
  slab after slab; \<open>pointers_m\<close> holds the address of the first bucket of each slab.
\<close>

record (overloaded) 'a EratBig =
  heap :: "'a Bucket list"
  lists_m :: "ptr list"
  stock_m :: ptr
  pointers_m :: "addr list"
  log2SieveSize_m :: "'a word"
  moduloSieveSize_m :: "'a word"

subsection \<open>Helpers declared outside the sources\<close>

text \<open>
  Modelled from the spec: \<open>isPowerOf2\<close> and \<open>ilog2\<close> of \<^verbatim>\<open>imath.h\<close>. The spec has the
  segment size \<open>S\<close> a power of two and \<open>L = log2(S)\<close>.
\<close>

definition isPowerOf2 :: "'a::len word \<Rightarrow> bool" where
  "isPowerOf2 x \<longleftrightarrow> x \<noteq> 0 \<and> x AND (x - 1) = 0"

fun ilog2_nat :: "nat \<Rightarrow> nat" where
  "ilog2_nat n = (if n < 2 then 0 else Suc (ilog2_nat (n div 2)))"

declare ilog2_nat.simps [simp del]

definition ilog2 :: "'a::len word \<Rightarrow> 'a word" where
  "ilog2 x = of_nat (ilog2_nat (unat x))"

text \<open>
  Modelled from the spec: the methods of \<open>Bucket\<close>. \<open>store\<close> writes the triple into the
  slot at \<open>end()\<close> and reports whether the bucket still has a free slot afterwards; the
  source calls it once per triple and links a fresh bucket when it answers false.
  Writing into a bucket that has no free slot is outside the array.
\<close>

definition Bucket_empty :: "'a::len Bucket \<Rightarrow> bool" where
  "Bucket_empty b \<longleftrightarrow> wheelPrimes b = []"

definition Bucket_hasNext :: "'a::len Bucket \<Rightarrow> bool" where
  "Bucket_hasNext b \<longleftrightarrow> next_m b \<noteq> None"

definition Bucket_reset :: "'a::len Bucket \<Rightarrow> 'a Bucket" where
  "Bucket_reset b = b\<lparr>wheelPrimes := []\<rparr>"

definition Bucket_setNext :: "ptr \<Rightarrow> 'a::len Bucket \<Rightarrow> 'a Bucket" where
  "Bucket_setNext p b = b\<lparr>next_m := p\<rparr>"

definition Bucket_store ::
  "'a::len Config \<Rightarrow> 'a WheelPrime \<Rightarrow> 'a Bucket \<Rightarrow> error + ('a Bucket \<times> bool)" where
  "Bucket_store cfg wp b =
     (if BUCKETSIZE cfg \<le> length (wheelPrimes b) then Inl BucketOverflow
      else Inr (b\<lparr>wheelPrimes := wheelPrimes b @ [wp]\<rparr>,
                length (wheelPrimes b) \<noteq> BUCKETSIZE cfg - 1))"

text \<open>
  Modelled from the spec: \<open>unsetBit\<close> of \<^verbatim>\<open>WheelFactorization.h\<close>, the wheel step:
  clear the bit at (multipleIndex, mask), then
  \<open>multipleIndex += sievingPrime * factor + stride\<close> and \<open>wheelIndex = nextWheelIndex\<close>.
  The result is the sieve with the new multipleIndex and wheelIndex.
\<close>

definition unsetBit ::
  "'a::len Config \<Rightarrow> sieve \<Rightarrow> 'a word \<Rightarrow> 'a word \<Rightarrow> 'a word
     \<Rightarrow> error + (sieve \<times> 'a word \<times> 'a word)" where
  "unsetBit cfg sieve sievingPrime multipleIndex wheelIndex =
     (if length sieve \<le> unat multipleIndex then Inl SieveOutOfRange
      else Inr (sieve[unat multipleIndex :=
                        sieve ! unat multipleIndex AND NOT (unsetBitMask (WHEEL cfg wheelIndex))],
                multipleIndex + sievingPrime * nextMultipleFactor (WHEEL cfg wheelIndex)
                  + correct (WHEEL cfg wheelIndex),
                nextWheelIndex (WHEEL cfg wheelIndex)))"

subsection \<open>The operations of EratBig.cpp\<close>

text \<open>
  \<open>new Bucket[BUCKETS_PER_ALLOC]\<close> at address \<open>base\<close>, after the loop of \<open>pushBucket\<close>
  that links bucket \<open>i\<close> to bucket \<open>i + 1\<close> and the last one to \<open>NULL\<close>.
\<close>

definition new_slab :: "addr \<Rightarrow> nat \<Rightarrow> 'a::len Bucket list" where
  "new_slab base n =
     map (\<lambda>i. \<lparr>wheelPrimes = [], next_m = (if i < n - 1 then Some (base + i + 1) else None)\<rparr>)
       [0..<n]"

definition pushBucket :: "'a::len Config \<Rightarrow> 'a word \<Rightarrow> 'a EratBig \<Rightarrow> error + 'a EratBig" where
  "pushBucket cfg segment s =
     (if stock_m s = None \<and> BUCKETS_PER_ALLOC cfg = 0 then Inl EmptySlab
      else
        let s1 = (if stock_m s = None
                  then let more_p = length (heap s)
                       in s\<lparr>heap := heap s @ new_slab more_p (BUCKETS_PER_ALLOC cfg),
                            stock_m := Some more_p,
                            pointers_m := pointers_m s @ [more_p]\<rparr>
                  else s)
        in case stock_m s1 of
             None \<Rightarrow> Inl NullDereference
           | Some bucket \<Rightarrow>
               if length (heap s1) \<le> bucket then Inl DanglingPointer
               else if length (lists_m s1) \<le> unat segment then Inl IndexOutOfRange
               else Inr (s1\<lparr>stock_m := next_m (heap s1 ! bucket),
                            heap := (heap s1)[bucket :=
                                      Bucket_setNext (lists_m s1 ! unat segment) (heap s1 ! bucket)],
                            lists_m := (lists_m s1)[unat segment := Some bucket]\<rparr>))"

text \<open>
  The statement
  \<^verbatim>\<open>if (!lists_[segment]->store(sievingPrime, multipleIndex, wheelIndex)) pushBucket(segment);\<close>
  which the source writes once in \<open>storeSievingPrime\<close> and three times in \<open>crossOff\<close>.
\<close>

definition store_or_push ::
  "'a::len Config \<Rightarrow> 'a word \<Rightarrow> 'a WheelPrime \<Rightarrow> 'a EratBig \<Rightarrow> error + 'a EratBig" where
  "store_or_push cfg segment wp s =
     (if length (lists_m s) \<le> unat segment then Inl IndexOutOfRange
      else case lists_m s ! unat segment of
             None \<Rightarrow> Inl NullDereference
           | Some b \<Rightarrow>
               if length (heap s) \<le> b then Inl DanglingPointer
               else case Bucket_store cfg wp (heap s ! b) of
                      Inl e \<Rightarrow> Inl e
                    | Inr (b', stored) \<Rightarrow>
                        let s1 = s\<lparr>heap := (heap s)[b := b']\<rparr>
                        in if \<not> stored then pushBucket cfg segment s1 else Inr s1)"

definition storeSievingPrime ::
  "'a::len Config \<Rightarrow> 'a word \<Rightarrow> 'a word \<Rightarrow> 'a word \<Rightarrow> 'a EratBig \<Rightarrow> error + 'a EratBig" where
  "storeSievingPrime cfg sievingPrime multipleIndex wheelIndex s =
     (let segment = drop_bit (unat (log2SieveSize_m s)) multipleIndex;
          multipleIndex = multipleIndex AND moduloSieveSize_m s
      in store_or_push cfg segment (sievingPrime, multipleIndex, wheelIndex) s)"

text \<open>
  \<open>crossOff(Bucket&, sieve)\<close> on the triples between \<open>begin()\<close> and \<open>end()\<close> of the
  bucket, read when the function is entered: the stores of the loop write at or after
  the \<open>end()\<close> of a bucket and never change a slot before it. The first equation is
  the body of the \<open>for\<close> loop, two triples per iteration; the second is the
  \<open>if (wPrime != end)\<close> after it.
\<close>

fun crossOff_loop ::
  "'a::len Config \<Rightarrow> 'a WheelPrime list \<Rightarrow> 'a EratBig \<times> sieve \<Rightarrow> error + ('a EratBig \<times> sieve)" where
  "crossOff_loop cfg ((sievingPrime0, multipleIndex0, wheelIndex0) #
                      (sievingPrime1, multipleIndex1, wheelIndex1) # rest) (s, sieve) =
     (case unsetBit cfg sieve sievingPrime0 multipleIndex0 wheelIndex0 of
        Inl e \<Rightarrow> Inl e
      | Inr (sieve, multipleIndex0, wheelIndex0) \<Rightarrow>
     (case unsetBit cfg sieve sievingPrime1 multipleIndex1 wheelIndex1 of
        Inl e \<Rightarrow> Inl e
      | Inr (sieve, multipleIndex1, wheelIndex1) \<Rightarrow>
          let segment0 = drop_bit (unat (log2SieveSize_m s)) multipleIndex0;
              segment1 = drop_bit (unat (log2SieveSize_m s)) multipleIndex1;
              multipleIndex0 = multipleIndex0 AND moduloSieveSize_m s;
              multipleIndex1 = multipleIndex1 AND moduloSieveSize_m s
          in (case store_or_push cfg segment0 (sievingPrime0, multipleIndex0, wheelIndex0) s of
                Inl e \<Rightarrow> Inl e
              | Inr s \<Rightarrow>
             (case store_or_push cfg segment1 (sievingPrime1, multipleIndex1, wheelIndex1) s of
                Inl e \<Rightarrow> Inl e
              | Inr s \<Rightarrow> crossOff_loop cfg rest (s, sieve)))))"
| "crossOff_loop cfg [(sievingPrime, multipleIndex, wheelIndex)] (s, sieve) =
     (case unsetBit cfg sieve sievingPrime multipleIndex wheelIndex of
        Inl e \<Rightarrow> Inl e
      | Inr (sieve, multipleIndex, wheelIndex) \<Rightarrow>
          let segment = drop_bit (unat (log2SieveSize_m s)) multipleIndex;
              multipleIndex = multipleIndex AND moduloSieveSize_m s
          in (case store_or_push cfg segment (sievingPrime, multipleIndex, wheelIndex) s of
                Inl e \<Rightarrow> Inl e
              | Inr s \<Rightarrow> Inr (s, sieve)))"
| "crossOff_loop cfg [] (s, sieve) = Inr (s, sieve)"

definition crossOff_Bucket ::
  "'a::len Config \<Rightarrow> addr \<Rightarrow> 'a EratBig \<times> sieve \<Rightarrow> error + ('a EratBig \<times> sieve)" where
  "crossOff_Bucket cfg bucket ss = crossOff_loop cfg (wheelPrimes (heap (fst ss) ! bucket)) ss"

text \<open>
  The \<open>do ... while (bucket != NULL)\<close> of \<open>crossOff(sieve)\<close>: cross off the bucket, then
  reset it and move it to the stock. The loop follows pointers, so it is a partial
  function: \<open>None\<close> is a loop that does not come back.
\<close>

partial_function (option) crossOff_chain ::
  "'a::len Config \<Rightarrow> ptr \<Rightarrow> 'a EratBig \<times> sieve \<Rightarrow> (error + ('a EratBig \<times> sieve)) option" where
  "crossOff_chain cfg bucket ss =
     (case bucket of
        None \<Rightarrow> Some (Inl NullDereference)
      | Some b \<Rightarrow>
          if length (heap (fst ss)) \<le> b then Some (Inl DanglingPointer)
          else case crossOff_Bucket cfg b ss of
                 Inl e \<Rightarrow> Some (Inl e)
               | Inr (s, sieve) \<Rightarrow>
                   let old = b;
                       bucket = next_m (heap s ! b);
                       s = s\<lparr>heap := (heap s)[old :=
                                       Bucket_setNext (stock_m s) (Bucket_reset (heap s ! old))],
                             stock_m := Some old\<rparr>
                   in if bucket \<noteq> None then crossOff_chain cfg bucket (s, sieve)
                      else Some (Inr (s, sieve)))"

text \<open>
  One iteration of the \<open>while\<close> loop of \<open>crossOff(sieve)\<close>, entered with
  \<open>list = lists_m[0]\<close> pointing to the bucket at \<open>l\<close>.
\<close>

definition crossOff_pass ::
  "'a::len Config \<Rightarrow> 'a EratBig \<times> sieve \<Rightarrow> (error + ('a EratBig \<times> sieve)) option" where
  "crossOff_pass cfg ss =
     (let bucket = lists_m (fst ss) ! 0;
          s = (fst ss)\<lparr>lists_m := (lists_m (fst ss))[0 := None]\<rparr>
      in case pushBucket cfg 0 s of
           Inl e \<Rightarrow> Some (Inl e)
         | Inr s \<Rightarrow> crossOff_chain cfg bucket (s, snd ss))"

text \<open>
  The condition \<open>list->hasNext() || !list->empty()\<close> of the \<open>while\<close> loop, where
  \<open>list\<close> is a reference to \<open>lists_m[0]\<close>.
\<close>

definition crossOff_cond :: "'a::len EratBig \<Rightarrow> error + bool" where
  "crossOff_cond s =
     (case lists_m s of
        [] \<Rightarrow> Inl IndexOutOfRange
      | list # _ \<Rightarrow>
          (case list of
             None \<Rightarrow> Inl NullDereference
           | Some l \<Rightarrow>
               if length (heap s) \<le> l then Inl DanglingPointer
               else Inr (Bucket_hasNext (heap s ! l) \<or> \<not> Bucket_empty (heap s ! l))))"

partial_function (option) crossOff_while ::
  "'a::len Config \<Rightarrow> 'a EratBig \<times> sieve \<Rightarrow> (error + ('a EratBig \<times> sieve)) option" where
  "crossOff_while cfg ss =
     (case crossOff_cond (fst ss) of
        Inl e \<Rightarrow> Some (Inl e)
      | Inr continue \<Rightarrow>
          if continue
          then Option.bind (crossOff_pass cfg ss)
                 (\<lambda>r. case r of Inl e \<Rightarrow> Some (Inl e) | Inr ss \<Rightarrow> crossOff_while cfg ss)
          else Some (Inr ss))"

text \<open>
  The end of \<open>crossOff(sieve)\<close>: \<open>tmp = list\<close>, the \<open>std::copy\<close> that moves every entry
  after the first down by one, and \<open>lists_m.back() = tmp\<close>.
\<close>

definition rotate_lists :: "'a::len EratBig \<Rightarrow> 'a EratBig" where
  "rotate_lists s =
     (let tmp = lists_m s ! 0;
          copied = tl (lists_m s) @ [last (lists_m s)]
      in s\<lparr>lists_m := copied[length copied - 1 := tmp]\<rparr>)"

definition crossOff ::
  "'a::len Config \<Rightarrow> 'a EratBig \<times> sieve \<Rightarrow> (error + ('a EratBig \<times> sieve)) option" where
  "crossOff cfg ss =
     Option.bind (crossOff_while cfg ss)
       (\<lambda>r. case r of
              Inl e \<Rightarrow> Some (Inl e)
            | Inr (s, sieve) \<Rightarrow> Some (Inr (rotate_lists s, sieve)))"

text \<open>
  \<open>setListsSize\<close>: the number of bucket lists, and the \<open>resize\<close> of \<open>lists_\<close> to it,
  new entries being \<open>NULL\<close>.
\<close>

definition listsSize :: "'a::len Config \<Rightarrow> 'a SieveOfEratosthenes \<Rightarrow> 'a word \<Rightarrow> 'a word" where
  "listsSize cfg soe log2SieveSize =
     (let maxSievingPrime = getSqrtStop soe div NUMBERS_PER_BYTE;
          maxNextMultiple = maxSievingPrime * getMaxFactor cfg + getMaxFactor cfg;
          maxMultipleIndex = getSieveSize soe - 1 + maxNextMultiple;
          maxSegmentCount = drop_bit (unat log2SieveSize) maxMultipleIndex
      in maxSegmentCount + 1)"

definition setListsSize ::
  "'a::len Config \<Rightarrow> 'a SieveOfEratosthenes \<Rightarrow> 'a EratBig \<Rightarrow> 'a EratBig" where
  "setListsSize cfg soe s =
     (let size' = unat (listsSize cfg soe (log2SieveSize_m s))
      in s\<lparr>lists_m := take size' (lists_m s) @ replicate (size' - length (lists_m s)) None\<rparr>)"

text \<open>
  \<open>init\<close>: one \<open>pushBucket(i)\<close> for each index of \<open>lists_\<close>. The constructor is its
  only caller, and there the size of \<open>lists_\<close> fits the counter's type.
\<close>

fun init_loop :: "'a::len Config \<Rightarrow> nat list \<Rightarrow> 'a EratBig \<Rightarrow> error + 'a EratBig" where
  "init_loop cfg [] s = Inr s"
| "init_loop cfg (i # is) s =
     (case pushBucket cfg (of_nat i) s of
        Inl e \<Rightarrow> Inl e
      | Inr s \<Rightarrow> init_loop cfg is s)"

definition init :: "'a::len Config \<Rightarrow> 'a EratBig \<Rightarrow> error + 'a EratBig" where
  "init cfg s = init_loop cfg [0..<length (lists_m s)] s"

text \<open>
  The constructor. The member initialisers run first; the body then checks the sieve
  size, sizes \<open>lists_\<close> and calls \<open>init\<close>. An exception leaves the constructor with the
  state the object had when it was thrown, so that what had been done by then can be
  read off the result.
\<close>

definition EratBig_members :: "'a::len SieveOfEratosthenes \<Rightarrow> 'a EratBig" where
  "EratBig_members soe =
     \<lparr>heap = [], lists_m = [], stock_m = None, pointers_m = [],
      log2SieveSize_m = ilog2 (getSieveSize soe),
      moduloSieveSize_m = getSieveSize soe - 1\<rparr>"

definition EratBig_ctor ::
  "'a::len Config \<Rightarrow> 'a SieveOfEratosthenes \<Rightarrow> (error \<times> 'a EratBig) + 'a EratBig" where
  "EratBig_ctor cfg soe =
     (let s = EratBig_members soe
      in if \<not> isPowerOf2 (getSieveSize soe) then Inl (InvalidArgument, s)
         else let s = setListsSize cfg soe s
              in case init cfg s of
                   Inl e \<Rightarrow> Inl (e, s)
                 | Inr s \<Rightarrow> Inr s)"

text \<open>
  The destructor: one \<open>delete[]\<close> for each entry of \<open>pointers_\<close>, in order. Each frees
  the slab of \<open>BUCKETS_PER_ALLOC\<close> buckets that starts at that address; the result is the
  addresses of the buckets freed.
\<close>

definition EratBig_dtor :: "'a::len Config \<Rightarrow> 'a EratBig \<Rightarrow> addr list" where
  "EratBig_dtor cfg s = concat (map (\<lambda>p. [p..<p + BUCKETS_PER_ALLOC cfg]) (pointers_m s))"

fun path :: "'a::len Bucket list \<Rightarrow> ptr \<Rightarrow> addr list \<Rightarrow> bool" where
  "path h p [] \<longleftrightarrow> p = None"
| "path h p (a # as) \<longleftrightarrow> p = Some a \<and> a < length h \<and> path h (next_m (h ! a)) as"

fun chain :: "nat \<Rightarrow> 'a::len Bucket list \<Rightarrow> ptr \<Rightarrow> addr list" where
  "chain 0 h p = []"
| "chain (Suc n) h None = []"
| "chain (Suc n) h (Some a) = (if a < length h then a # chain n h (next_m (h ! a)) else [])"

definition triples_of :: "'a::len Bucket list \<Rightarrow> addr list \<Rightarrow> 'a WheelPrime list" where
  "triples_of h as = concat (map (\<lambda>a. wheelPrimes (h ! a)) as)"

definition heap_ok ::
  "'a::len Config \<Rightarrow> 'a EratBig \<Rightarrow> addr list list \<Rightarrow> addr list \<Rightarrow> addr list \<Rightarrow> bool" where
  "heap_ok cfg s Ls St D \<longleftrightarrow>
     list_all2 (path (heap s)) (lists_m s) Ls \<and>
     path (heap s) (stock_m s) St \<and>
     distinct (concat Ls @ St @ D) \<and>
     set (concat Ls @ St @ D) = {..<length (heap s)} \<and>
     (\<forall>a\<in>set St. wheelPrimes (heap s ! a) = []) \<and>
     0 < BUCKETS_PER_ALLOC cfg \<and>
     (\<forall>i<length (pointers_m s). pointers_m s ! i = i * BUCKETS_PER_ALLOC cfg) \<and>
     length (heap s) = length (pointers_m s) * BUCKETS_PER_ALLOC cfg"

definition pushed_addr :: "'a::len EratBig \<Rightarrow> addr" where
  "pushed_addr s = (case stock_m s of None \<Rightarrow> length (heap s) | Some b \<Rightarrow> b)"

definition filled :: "'a::len Config \<Rightarrow> 'a Bucket list \<Rightarrow> addr list list \<Rightarrow> bool" where
  "filled cfg h Ls \<longleftrightarrow>
     0 < BUCKETSIZE cfg \<and>
     (\<forall>k<length Ls. Ls ! k \<noteq> [] \<and>
        length (wheelPrimes (h ! hd (Ls ! k))) < BUCKETSIZE cfg \<and>
        (\<forall>a\<in>set (tl (Ls ! k)). length (wheelPrimes (h ! a)) = BUCKETSIZE cfg))"

definition reroute :: "'a::len Config \<Rightarrow> 'a word \<Rightarrow> 'a word \<Rightarrow> 'a WheelPrime \<Rightarrow> 'a word \<times> 'a WheelPrime" where
  "reroute cfg L M wp =
     (case wp of (sievingPrime, multipleIndex, wheelIndex) \<Rightarrow>
        let multipleIndex' = multipleIndex
              + sievingPrime * nextMultipleFactor (WHEEL cfg wheelIndex)
              + correct (WHEEL cfg wheelIndex)
        in (drop_bit (unat L) multipleIndex',
            (sievingPrime, multipleIndex' AND M, nextWheelIndex (WHEEL cfg wheelIndex))))"

definition clear_multiple :: "'a::len Config \<Rightarrow> sieve \<Rightarrow> 'a WheelPrime \<Rightarrow> sieve" where
  "clear_multiple cfg sieve wp =
     (case wp of (sievingPrime, multipleIndex, wheelIndex) \<Rightarrow>
        sieve[unat multipleIndex :=
                sieve ! unat multipleIndex AND NOT (unsetBitMask (WHEEL cfg wheelIndex))])"

definition routed_to ::
  "'a::len Config \<Rightarrow> 'a word \<Rightarrow> 'a word \<Rightarrow> nat \<Rightarrow> 'a WheelPrime list \<Rightarrow> 'a WheelPrime list" where
  "routed_to cfg L M j wps =
     map snd (filter (\<lambda>r. unat (fst r) = j) (map (reroute cfg L M) wps))"

definition crossOff_one ::
  "'a::len Config \<Rightarrow> 'a WheelPrime \<Rightarrow> 'a EratBig \<times> sieve \<Rightarrow> error + ('a EratBig \<times> sieve)" where
  "crossOff_one cfg wp ss =
     (case wp of (sievingPrime, multipleIndex, wheelIndex) \<Rightarrow>
      case ss of (s, sieve) \<Rightarrow>
        (case unsetBit cfg sieve sievingPrime multipleIndex wheelIndex of
           Inl e \<Rightarrow> Inl e
         | Inr (sieve, multipleIndex, wheelIndex) \<Rightarrow>
             let segment = drop_bit (unat (log2SieveSize_m s)) multipleIndex;
                 multipleIndex = multipleIndex AND moduloSieveSize_m s
             in (case store_or_push cfg segment (sievingPrime, multipleIndex, wheelIndex) s of
                   Inl e \<Rightarrow> Inl e
                 | Inr s \<Rightarrow> Inr (s, sieve))))"

fun crossOff_naive ::
  "'a::len Config \<Rightarrow> 'a WheelPrime list \<Rightarrow> 'a EratBig \<times> sieve \<Rightarrow> error + ('a EratBig \<times> sieve)" where
  "crossOff_naive cfg [] ss = Inr ss"
| "crossOff_naive cfg (wp # rest) ss =
     (case crossOff_one cfg wp ss of
        Inl e \<Rightarrow> Inl e
      | Inr ss \<Rightarrow> crossOff_naive cfg rest ss)"

definition state_ok ::
  "'a::len Config \<Rightarrow> 'a EratBig \<Rightarrow> addr list list \<Rightarrow> addr list \<Rightarrow> addr list \<Rightarrow> bool" where
  "state_ok cfg s Ls St D \<longleftrightarrow> heap_ok cfg s Ls St D \<and> filled cfg (heap s) Ls"

definition frame :: "'a::len EratBig \<Rightarrow> 'a EratBig \<Rightarrow> addr list \<Rightarrow> bool" where
  "frame s s' D \<longleftrightarrow>
     (\<forall>a\<in>set D. heap s' ! a = heap s ! a) \<and>
     log2SieveSize_m s' = log2SieveSize_m s \<and>
     moduloSieveSize_m s' = moduloSieveSize_m s \<and>
     length (lists_m s') = length (lists_m s) \<and>
     length (heap s) \<le> length (heap s')"

definition recycle :: "addr \<Rightarrow> 'a::len EratBig \<Rightarrow> 'a EratBig" where
  "recycle old s =
     s\<lparr>heap := (heap s)[old := Bucket_setNext (stock_m s) (Bucket_reset (heap s ! old))],
       stock_m := Some old\<rparr>"

definition big_prime :: "'a::len Config \<Rightarrow> 'a word \<Rightarrow> 'a word \<Rightarrow> nat \<Rightarrow> 'a word \<Rightarrow> bool" where
  "big_prime cfg L M n p \<longleftrightarrow>
     (\<forall>w. 0 < unat p * unat (nextMultipleFactor (WHEEL cfg w)) + unat (correct (WHEEL cfg w)) \<and>
          unat M + unat p * unat (nextMultipleFactor (WHEEL cfg w)) + unat (correct (WHEEL cfg w))
            < 2 ^ LENGTH('a) \<and>
          (unat M + unat p * unat (nextMultipleFactor (WHEEL cfg w)) + unat (correct (WHEEL cfg w)))
            div 2 ^ unat L < n)"

definition triple_ok :: "'a::len Config \<Rightarrow> 'a word \<Rightarrow> 'a word \<Rightarrow> nat \<Rightarrow> 'a WheelPrime \<Rightarrow> bool" where
  "triple_ok cfg L M n wp \<longleftrightarrow> fst (snd wp) \<le> M \<and> big_prime cfg L M n (fst wp)"

definition measure_of :: "'a::len word \<Rightarrow> 'a WheelPrime list \<Rightarrow> nat" where
  "measure_of M wps = sum_list (map (\<lambda>wp. Suc (unat M) - unat (fst (snd wp))) wps)"

definition list_buckets :: "'a::len EratBig \<Rightarrow> nat \<Rightarrow> addr list" where
  "list_buckets s k = chain (length (heap s)) (heap s) (lists_m s ! k)"

definition all_lists :: "'a::len EratBig \<Rightarrow> addr list list" where
  "all_lists s = map (list_buckets s) [0..<length (lists_m s)]"

definition stock_buckets :: "'a::len EratBig \<Rightarrow> addr list" where
  "stock_buckets s = chain (length (heap s)) (heap s) (stock_m s)"

definition list_triples :: "'a::len EratBig \<Rightarrow> nat \<Rightarrow> 'a WheelPrime list" where
  "list_triples s k = triples_of (heap s) (list_buckets s k)"

definition EratBig_inv :: "'a::len Config \<Rightarrow> 'a EratBig \<Rightarrow> bool" where
  "EratBig_inv cfg s \<longleftrightarrow>
     state_ok cfg s (all_lists s) (stock_buckets s) [] \<and>
     lists_m s \<noteq> [] \<and>
     moduloSieveSize_m s = mask (unat (log2SieveSize_m s)) \<and>
     (\<forall>k<length (lists_m s). \<forall>t\<in>set (list_triples s k). fst (snd t) \<le> moduloSieveSize_m s)"

definition primes_ok :: "'a::len Config \<Rightarrow> 'a EratBig \<Rightarrow> bool" where
  "primes_ok cfg s \<longleftrightarrow>
     (\<forall>k<length (lists_m s). \<forall>t\<in>set (list_triples s k).
        big_prime cfg (log2SieveSize_m s) (moduloSieveSize_m s) (length (lists_m s)) (fst t))"

text \<open>
  The data of the examples: 32-bit integers, buckets of two triples, slabs of two
  buckets, and a wheel of two entries. The sieve size is 4 bytes and the square root of
  the stop number is 60, which gives four bucket lists.
\<close>

definition cfg0 :: "32 Config" where
  "cfg0 = \<lparr>BUCKETSIZE = 2, BUCKETS_PER_ALLOC = 2,
            WHEEL = (\<lambda>w. if w = 0
                        then \<lparr>unsetBitMask = 1, nextMultipleFactor = 2, correct = 1,
                              nextWheelIndex = 1\<rparr>
                        else \<lparr>unsetBitMask = 2, nextMultipleFactor = 4, correct = 0,
                              nextWheelIndex = 0\<rparr>),
            getMaxFactor = 4\<rparr>"

definition soe0 :: "32 SieveOfEratosthenes" where
  "soe0 = \<lparr>getSieveSize = 4, getSqrtStop = 60\<rparr>"

text \<open>
  The state of the example: the object after its construction from \<open>soe0\<close> and the
  storing of three sieving primes whose next multiples are in the current segment.
\<close>

definition s0 :: "32 EratBig" where
  "s0 = \<lparr>heap = [\<lparr>wheelPrimes = [(1, 1, 0), (2, 2, 1)], next_m = None\<rparr>,
                  \<lparr>wheelPrimes = [], next_m = None\<rparr>,
                  \<lparr>wheelPrimes = [], next_m = None\<rparr>,
                  \<lparr>wheelPrimes = [], next_m = None\<rparr>,
                  \<lparr>wheelPrimes = [(1, 3, 1)], next_m = Some 0\<rparr>,
                  \<lparr>wheelPrimes = [], next_m = None\<rparr>],
           lists_m = [Some 4, Some 1, Some 2, Some 3],
           stock_m = Some 5,
           pointers_m = [0, 2, 4],
           log2SieveSize_m = 2,
           moduloSieveSize_m = 3\<rparr>"

definition sieve0 :: sieve where
  "sieve0 = [255, 255, 255, 255]"

lemma path_unique: "path h p as \<Longrightarrow> path h p bs \<Longrightarrow> as = bs"
proof (induction as arbitrary: p bs)
  case Nil
  then show ?case by (cases bs) auto
next
  case (Cons a as)
  then show ?case by (cases bs) auto
qed

lemma path_bound: "path h p as \<Longrightarrow> a \<in> set as \<Longrightarrow> a < length h"
  by (induction as arbitrary: p) auto

lemma path_cong:
  "path h p as \<Longrightarrow> length h \<le> length h' \<Longrightarrow> (\<forall>a\<in>set as. next_m (h' ! a) = next_m (h ! a))
     \<Longrightarrow> path h' p as"
  by (induction as arbitrary: p) auto

lemma chain_path: "path h p as \<Longrightarrow> length as \<le> n \<Longrightarrow> chain n h p = as"
proof (induction n h p arbitrary: as rule: chain.induct)
  case (1 h p)
  then show ?case by simp
next
  case (2 n h)
  then show ?case by (cases as) auto
next
  case (3 n h a)
  then show ?case by (cases as) auto
qed

lemma distinct_length_le: "distinct as \<Longrightarrow> \<forall>a\<in>set as. a < n \<Longrightarrow> length as \<le> (n::nat)"
proof -
  assume d: "distinct as" and b: "\<forall>a\<in>set as. a < n"
  have "card (set as) \<le> card {..<n}"
    by (rule card_mono) (use b in auto)
  then show ?thesis using d by (simp add: distinct_card)
qed

lemma path_new_slab:
  "i \<le> n \<Longrightarrow> length h = base \<Longrightarrow>
   path (h @ new_slab base n) (if i < n then Some (base + i) else None) [base + i..<base + n]"
proof (induction "n - i" arbitrary: i)
  case 0
  then show ?case by simp
next
  case (Suc k)
  then have lt: "i < n" by simp
  have IH: "path (h @ new_slab base n) (if Suc i < n then Some (base + Suc i) else None)
              [base + Suc i..<base + n]"
    using Suc by (intro Suc.hyps(1)) auto
  have nx: "next_m ((h @ new_slab base n) ! (base + i)) = (if Suc i < n then Some (base + Suc i) else None)"
    using lt Suc.prems by (auto simp: nth_append new_slab_def)
  show ?case using lt IH nx Suc.prems
    by (simp add: upt_conv_Cons new_slab_def)
qed

lemma concat_update_mset:
  "k < length Ls \<Longrightarrow> mset (concat (Ls[k := x # Ls ! k])) = add_mset x (mset (concat Ls))"
proof (induction Ls arbitrary: k)
  case Nil
  then show ?case by simp
next
  case (Cons L Ls)
  then show ?case by (cases k) auto
qed

lemma concat_update_nil_mset:
  "k < length Ls \<Longrightarrow> mset (concat (Ls[k := []])) + mset (Ls ! k) = mset (concat Ls)"
proof (induction Ls arbitrary: k)
  case Nil
  then show ?case by simp
next
  case (Cons L Ls)
  then show ?case by (cases k) auto
qed

lemma nth_subset_concat: "k < length Ls \<Longrightarrow> set (Ls ! k) \<subseteq> set (concat Ls)"
proof
  fix x assume "k < length Ls" "x \<in> set (Ls ! k)"
  with nth_mem[of k Ls] show "x \<in> set (concat Ls)" by auto
qed

lemma distinct_concat_nth_disjoint:
  "distinct (concat Ls) \<Longrightarrow> j < length Ls \<Longrightarrow> k < length Ls \<Longrightarrow> j \<noteq> k
     \<Longrightarrow> set (Ls ! j) \<inter> set (Ls ! k) = {}"
proof (induction Ls arbitrary: j k)
  case Nil
  then show ?case by simp
next
  case (Cons L Ls)
  show ?case
  proof (cases j)
    case 0
    then obtain k' where k: "k = Suc k'" using Cons.prems by (cases k) auto
    then have "set (Ls ! k') \<subseteq> set (concat Ls)" using Cons.prems by (intro nth_subset_concat) simp
    then show ?thesis using Cons.prems 0 k by auto
  next
    case (Suc j')
    show ?thesis
    proof (cases k)
      case 0
      have "set (Ls ! j') \<subseteq> set (concat Ls)" using Cons.prems Suc by (intro nth_subset_concat) simp
      then show ?thesis using Cons.prems 0 Suc by auto
    next
      case (Suc k')
      then show ?thesis using Cons.prems \<open>j = Suc j'\<close> Cons.IH[of j' k'] by auto
    qed
  qed
qed

lemma heap_okI:
  "list_all2 (path (heap s)) (lists_m s) Ls \<Longrightarrow> path (heap s) (stock_m s) St
   \<Longrightarrow> distinct (concat Ls @ St @ D) \<Longrightarrow> set (concat Ls @ St @ D) = {..<length (heap s)}
   \<Longrightarrow> \<forall>a\<in>set St. wheelPrimes (heap s ! a) = [] \<Longrightarrow> 0 < BUCKETS_PER_ALLOC cfg
   \<Longrightarrow> (\<forall>i<length (pointers_m s). pointers_m s ! i = i * BUCKETS_PER_ALLOC cfg)
   \<Longrightarrow> length (heap s) = length (pointers_m s) * BUCKETS_PER_ALLOC cfg
   \<Longrightarrow> heap_ok cfg s Ls St D"
  unfolding heap_ok_def by blast

lemma heap_okD:
  assumes "heap_ok cfg s Ls St D"
  shows "list_all2 (path (heap s)) (lists_m s) Ls" and "path (heap s) (stock_m s) St"
    and "distinct (concat Ls @ St @ D)" and "set (concat Ls @ St @ D) = {..<length (heap s)}"
    and "\<forall>a\<in>set St. wheelPrimes (heap s ! a) = []" and "0 < BUCKETS_PER_ALLOC cfg"
    and "(\<forall>i<length (pointers_m s). pointers_m s ! i = i * BUCKETS_PER_ALLOC cfg)"
    and "length (heap s) = length (pointers_m s) * BUCKETS_PER_ALLOC cfg"
  using assms unfolding heap_ok_def by blast+

lemma heap_ok_refill:
  assumes ok: "heap_ok cfg s Ls [] D"
  defines "n \<equiv> length (heap s)"
  shows "heap_ok cfg (s\<lparr>heap := heap s @ new_slab n (BUCKETS_PER_ALLOC cfg),
                         stock_m := Some n, pointers_m := pointers_m s @ [n]\<rparr>)
           Ls [n..<n + BUCKETS_PER_ALLOC cfg] D"
proof -
  let ?N = "BUCKETS_PER_ALLOC cfg"
  let ?h' = "heap s @ new_slab n ?N"
  note D = heap_okD[OF ok]
  have paths: "list_all2 (path (heap s)) (lists_m s) Ls" by (rule D(1))
  have dist: "distinct (concat Ls @ D)" using D(3) by simp
  have cover: "set (concat Ls @ D) = {..<n}" using D(4) by (simp add: n_def)
  have N: "0 < ?N" by (rule D(6))
  have ptrs: "\<forall>i<length (pointers_m s). pointers_m s ! i = i * ?N" by (rule D(7))
  have len: "n = length (pointers_m s) * ?N" using D(8) by (simp add: n_def)
  have keep: "path ?h' p as" if "path (heap s) p as" for p as
  proof (rule path_cong[OF that])
    show "length (heap s) \<le> length ?h'" by simp
    show "\<forall>a\<in>set as. next_m (?h' ! a) = next_m (heap s ! a)"
      using path_bound[OF that] by (auto simp: nth_append)
  qed
  have p1: "list_all2 (path ?h') (lists_m s) Ls"
    using paths by (auto simp: list_all2_conv_all_nth intro: keep)
  have p2: "path ?h' (Some n) [n..<n + ?N]"
    using path_new_slab[of 0 ?N "heap s" n] N by (simp add: n_def)
  have small: "\<forall>x\<in>set (concat Ls) \<union> set D. x < n"
    using cover by auto
  have d: "distinct (concat Ls @ [n..<n + ?N] @ D)"
  proof -
    have "\<forall>x\<in>set [n..<n + ?N]. x \<notin> set (concat Ls) \<and> x \<notin> set D"
    proof
      fix x assume "x \<in> set [n..<n + ?N]"
      then have "\<not> x < n" by simp
      then show "x \<notin> set (concat Ls) \<and> x \<notin> set D" using small by blast
    qed
    then have "set (concat Ls) \<inter> set [n..<n + ?N] = {}" "set [n..<n + ?N] \<inter> set D = {}"
      by blast+
    then show ?thesis using dist by (simp add: Int_Un_distrib)
  qed
  have lh: "length ?h' = n + ?N" by (simp add: new_slab_def n_def)
  have c: "set (concat Ls @ [n..<n + ?N] @ D) = {..<length ?h'}"
  proof -
    have "set (concat Ls @ [n..<n + ?N] @ D) = set (concat Ls @ D) \<union> {n..<n + ?N}" by auto
    also have "\<dots> = {..<n} \<union> {n..<n + ?N}" by (simp only: cover)
    also have "\<dots> = {..<n + ?N}" by auto
    finally show ?thesis by (simp only: lh)
  qed
  have e: "\<forall>a\<in>set [n..<n + ?N]. wheelPrimes (?h' ! a) = []"
    by (auto simp: nth_append new_slab_def n_def)
  have pt: "\<forall>i<length (pointers_m s @ [n]). (pointers_m s @ [n]) ! i = i * ?N"
    using ptrs len by (auto simp: nth_append less_Suc_eq)
  have ln: "length ?h' = length (pointers_m s @ [n]) * ?N"
    using len lh by simp
  show ?thesis
    by (rule heap_okI) (use p1 p2 d c e N pt ln in simp_all)
qed

lemma heap_ok_pop:
  assumes ok: "heap_ok cfg s Ls (a # St) D" and k: "k < length Ls"
  shows "heap_ok cfg (s\<lparr>stock_m := next_m (heap s ! a),
                         heap := (heap s)[a := Bucket_setNext (lists_m s ! k) (heap s ! a)],
                         lists_m := (lists_m s)[k := Some a]\<rparr>)
           (Ls[k := a # Ls ! k]) St D"
proof -
  let ?h' = "(heap s)[a := Bucket_setNext (lists_m s ! k) (heap s ! a)]"
  note D = heap_okD[OF ok]
  note paths = D(1) and stock = D(2) and dist = D(3) and cover = D(4) and emp = D(5)
    and rest = D(6,7,8)
  have a_lt: "a < length (heap s)" using stock by simp
  have keep: "path ?h' p as" if "path (heap s) p as" "a \<notin> set as" for p as
  proof (rule path_cong[OF that(1)])
    show "length (heap s) \<le> length ?h'" by simp
    have "\<forall>b\<in>set as. b \<noteq> a" using that(2) by auto
    then show "\<forall>b\<in>set as. next_m (?h' ! b) = next_m (heap s ! b)"
      by (metis nth_list_update_neq)
  qed
  have a_notin: "a \<notin> set (concat Ls)" "a \<notin> set St" "a \<notin> set D"
    using dist by auto
  have len: "length (lists_m s) = length Ls" using paths by (simp add: list_all2_lengthD)
  have nth_path: "path (heap s) (lists_m s ! j) (Ls ! j)" if "j < length Ls" for j
    using paths that by (simp add: list_all2_conv_all_nth)
  have a_notin_j: "a \<notin> set (Ls ! j)" if "j < length Ls" for j
    using a_notin(1) nth_subset_concat[OF that] by auto
  have p1: "list_all2 (path ?h') ((lists_m s)[k := Some a]) (Ls[k := a # Ls ! k])"
    unfolding list_all2_conv_all_nth
  proof (intro conjI allI impI)
    show "length ((lists_m s)[k := Some a]) = length (Ls[k := a # Ls ! k])" using len by simp
    fix j assume "j < length ((lists_m s)[k := Some a])"
    then have j: "j < length Ls" using len by simp
    show "path ?h' ((lists_m s)[k := Some a] ! j) (Ls[k := a # Ls ! k] ! j)"
    proof (cases "j = k")
      case True
      have "path ?h' (lists_m s ! k) (Ls ! k)"
        using keep[OF nth_path[OF k] a_notin_j[OF k]] .
      then show ?thesis using True k len a_lt by (simp add: Bucket_setNext_def)
    next
      case False
      then show ?thesis using j len keep[OF nth_path[OF j] a_notin_j[OF j]] by simp
    qed
  qed
  have p2: "path ?h' (next_m (heap s ! a)) St"
    using stock a_notin(2) by (intro keep) auto
  have ms: "mset (concat (Ls[k := a # Ls ! k]) @ St @ D) = mset (concat Ls @ (a # St) @ D)"
    using concat_update_mset[OF k, of a] by simp
  have d: "distinct (concat (Ls[k := a # Ls ! k]) @ St @ D)"
    using dist mset_eq_imp_distinct_iff[OF ms] by blast
  have c: "set (concat (Ls[k := a # Ls ! k]) @ St @ D) = {..<length ?h'}"
    using cover mset_eq_setD[OF ms] by simp
  have e: "\<forall>b\<in>set St. wheelPrimes (?h' ! b) = []"
  proof
    fix b assume b: "b \<in> set St"
    then have "b \<noteq> a" using a_notin(2) by auto
    then have "?h' ! b = heap s ! b" by (metis nth_list_update_neq)
    then show "wheelPrimes (?h' ! b) = []" using emp b by simp
  qed
  show ?thesis
    by (rule heap_okI) (use p1 p2 d c e rest in simp_all)
qed

lemma pushBucket_ok:
  assumes ok: "heap_ok cfg s Ls St D" and k: "unat seg < length Ls"
  obtains s' St' where
    "pushBucket cfg seg s = Inr s'"
    "heap_ok cfg s' (Ls[unat seg := pushed_addr s # Ls ! unat seg]) St' D"
    "wheelPrimes (heap s' ! pushed_addr s) = []"
    "\<forall>b<length (heap s). wheelPrimes (heap s' ! b) = wheelPrimes (heap s ! b)"
    "\<forall>b<length (heap s). b \<noteq> pushed_addr s \<longrightarrow> heap s' ! b = heap s ! b"
    "length (heap s) \<le> length (heap s')"
    "log2SieveSize_m s' = log2SieveSize_m s" "moduloSieveSize_m s' = moduloSieveSize_m s"
    "length (lists_m s') = length (lists_m s)"
    "St' = (case St of [] \<Rightarrow> [Suc (length (heap s))..<length (heap s) + BUCKETS_PER_ALLOC cfg]
                     | b # bs \<Rightarrow> bs)"
    "length (heap s') = length (heap s) + (if stock_m s = None then BUCKETS_PER_ALLOC cfg else 0)"
    "pointers_m s' = pointers_m s @ (if stock_m s = None then [length (heap s)] else [])"
proof -
  let ?N = "BUCKETS_PER_ALLOC cfg"
  let ?n = "length (heap s)"
  note D = heap_okD[OF ok]
  have N: "0 < ?N" by (rule D(6))
  have len: "length (lists_m s) = length Ls" using D(1) by (rule list_all2_lengthD)
  define s1 where "s1 = (if stock_m s = None
                  then s\<lparr>heap := heap s @ new_slab ?n ?N, stock_m := Some ?n,
                         pointers_m := pointers_m s @ [?n]\<rparr>
                  else s)"
  define St1 where "St1 = (if stock_m s = None then [?n..<?n + ?N] else St)"
  have ok1: "heap_ok cfg s1 Ls St1 D"
  proof (cases "stock_m s")
    case None
    then have "St = []" using D(2) by (cases St) auto
    then show ?thesis using heap_ok_refill[of cfg s Ls D] ok None by (simp add: s1_def St1_def)
  next
    case (Some b)
    then show ?thesis using ok by (simp add: s1_def St1_def)
  qed
  have st1: "stock_m s1 = Some (pushed_addr s)"
    by (cases "stock_m s") (simp_all add: s1_def pushed_addr_def)
  have St1_eq: "St1 = pushed_addr s # (case St of [] \<Rightarrow> [Suc ?n..<?n + ?N] | b # bs \<Rightarrow> bs)"
  proof (cases "stock_m s")
    case None
    then have "St = []" using D(2) by (cases St) auto
    then show ?thesis using None N by (simp add: St1_def pushed_addr_def upt_conv_Cons)
  next
    case (Some b)
    then show ?thesis using D(2) by (cases St) (auto simp: St1_def pushed_addr_def)
  qed
  let ?St' = "case St of [] \<Rightarrow> [Suc ?n..<?n + ?N] | b # bs \<Rightarrow> bs"
  let ?a = "pushed_addr s"
  define s' where "s' = s1\<lparr>stock_m := next_m (heap s1 ! ?a),
                            heap := (heap s1)[?a := Bucket_setNext (lists_m s1 ! unat seg) (heap s1 ! ?a)],
                            lists_m := (lists_m s1)[unat seg := Some ?a]\<rparr>"
  have ok1': "heap_ok cfg s1 Ls (?a # ?St') D" using ok1 St1_eq by simp
  note D1 = heap_okD[OF ok1']
  have a_lt: "?a < length (heap s1)" using D1(2) by simp
  have len1: "length (lists_m s1) = length (lists_m s)" by (simp add: s1_def)
  have heap1: "length (heap s) \<le> length (heap s1)" "\<forall>b<?n. heap s1 ! b = heap s ! b"
    by (simp_all add: s1_def nth_append)
  have emp_a: "wheelPrimes (heap s1 ! ?a) = []" using D1(5) by simp
  have res: "pushBucket cfg seg s = Inr s'"
  proof (cases "stock_m s")
    case None
    show ?thesis using N k len
      by (simp add: pushBucket_def Let_def s'_def s1_def pushed_addr_def None new_slab_def)
  next
    case (Some b)
    have "b < length (heap s)" using a_lt by (simp add: s1_def pushed_addr_def Some)
    then show ?thesis using k len
      by (simp add: pushBucket_def Let_def s'_def s1_def pushed_addr_def Some)
  qed
  have ok': "heap_ok cfg s' (Ls[unat seg := ?a # Ls ! unat seg]) ?St' D"
    unfolding s'_def by (rule heap_ok_pop[OF ok1' k])
  have h': "heap s' = (heap s1)[?a := Bucket_setNext (lists_m s1 ! unat seg) (heap s1 ! ?a)]"
    by (simp add: s'_def)
  have w_a: "wheelPrimes (heap s' ! ?a) = []"
    using a_lt emp_a by (simp add: h' Bucket_setNext_def)
  have w_all: "\<forall>b<?n. wheelPrimes (heap s' ! b) = wheelPrimes (heap s ! b)"
  proof (intro allI impI)
    fix b assume b: "b < ?n"
    show "wheelPrimes (heap s' ! b) = wheelPrimes (heap s ! b)"
    proof (cases "b = ?a")
      case True
      then show ?thesis using w_a emp_a heap1(2) b by simp
    next
      case False
      then have "heap s' ! b = heap s1 ! b" unfolding h' by (metis nth_list_update_neq)
      then show ?thesis using heap1(2) b by simp
    qed
  qed
  have h_all: "\<forall>b<?n. b \<noteq> ?a \<longrightarrow> heap s' ! b = heap s ! b"
  proof (intro allI impI)
    fix b assume b: "b < ?n" "b \<noteq> ?a"
    then have "heap s' ! b = heap s1 ! b" unfolding h' by (metis nth_list_update_neq)
    then show "heap s' ! b = heap s ! b" using heap1(2) b by simp
  qed
  have l': "length (heap s) \<le> length (heap s')" using heap1(1) by (simp add: h')
  have f1: "log2SieveSize_m s' = log2SieveSize_m s" "moduloSieveSize_m s' = moduloSieveSize_m s"
    "length (lists_m s') = length (lists_m s)"
    by (simp_all add: s'_def s1_def)
  have f2: "length (heap s') = ?n + (if stock_m s = None then ?N else 0)"
    "pointers_m s' = pointers_m s @ (if stock_m s = None then [?n] else [])"
    by (simp_all add: s'_def s1_def new_slab_def)
  show ?thesis
    by (rule that[OF res ok' w_a w_all h_all l' f1 refl f2])
qed

lemma distinct_concat_nth: "distinct (concat Ls) \<Longrightarrow> k < length Ls \<Longrightarrow> distinct (Ls ! k)"
proof (induction Ls arbitrary: k)
  case Nil
  then show ?case by simp
next
  case (Cons L Ls)
  then show ?case by (cases k) auto
qed

lemma heap_ok_nth:
  assumes ok: "heap_ok cfg s Ls St D" and k: "k < length Ls"
  shows "path (heap s) (lists_m s ! k) (Ls ! k)"
    and "distinct (Ls ! k)"
    and "set (Ls ! k) \<inter> set St = {}"
    and "set (Ls ! k) \<inter> set D = {}"
    and "\<forall>j<length Ls. j \<noteq> k \<longrightarrow> set (Ls ! j) \<inter> set (Ls ! k) = {}"
    and "\<forall>a\<in>set (Ls ! k). a < length (heap s)"
    and "length (lists_m s) = length Ls"
proof -
  note D = heap_okD[OF ok]
  show p: "path (heap s) (lists_m s ! k) (Ls ! k)"
    using D(1) k by (simp add: list_all2_conv_all_nth)
  have dc: "distinct (concat Ls)" using D(3) by simp
  show "distinct (Ls ! k)" by (rule distinct_concat_nth[OF dc k])
  have sub: "set (Ls ! k) \<subseteq> set (concat Ls)" by (rule nth_subset_concat[OF k])
  have "set (concat Ls) \<inter> set St = {}" "set (concat Ls) \<inter> set D = {}"
    using D(3) by auto
  then show "set (Ls ! k) \<inter> set St = {}" "set (Ls ! k) \<inter> set D = {}"
    using sub by blast+
  show "\<forall>j<length Ls. j \<noteq> k \<longrightarrow> set (Ls ! j) \<inter> set (Ls ! k) = {}"
    using distinct_concat_nth_disjoint[OF dc _ k] by blast
  show "\<forall>a\<in>set (Ls ! k). a < length (heap s)"
    using path_bound[OF p] by blast
  show "length (lists_m s) = length Ls" using D(1) by (rule list_all2_lengthD)
qed

lemma heap_ok_store:
  assumes ok: "heap_ok cfg s Ls St D" and b: "b \<notin> set St"
    and nx: "next_m b' = next_m (heap s ! b)"
  shows "heap_ok cfg (s\<lparr>heap := (heap s)[b := b']\<rparr>) Ls St D"
proof -
  let ?h' = "(heap s)[b := b']"
  note D = heap_okD[OF ok]
  have nx': "next_m (?h' ! a) = next_m (heap s ! a)" for a
  proof (cases "a = b \<and> b < length (heap s)")
    case True
    then show ?thesis using nx by simp
  next
    case False
    then show ?thesis by (cases "a = b") (simp_all add: list_update_beyond)
  qed
  have keep: "path ?h' p as" if "path (heap s) p as" for p as
    by (rule path_cong[OF that]) (simp_all add: nx')
  have p1: "list_all2 (path ?h') (lists_m s) Ls"
    using D(1) by (simp add: list_all2_conv_all_nth keep)
  have p2: "path ?h' (stock_m s) St" by (rule keep[OF D(2)])
  have e: "\<forall>a\<in>set St. wheelPrimes (?h' ! a) = []"
  proof
    fix a assume a: "a \<in> set St"
    then have "a \<noteq> b" using b by auto
    then have "?h' ! a = heap s ! a" by (metis nth_list_update_neq)
    then show "wheelPrimes (?h' ! a) = []" using D(5) a by simp
  qed
  show ?thesis
    by (rule heap_okI) (use p1 p2 D(3,4,6,7,8) e in simp_all)
qed

lemma in_set_tlD': "a \<in> set (tl xs) \<Longrightarrow> a \<in> set xs"
  by (cases xs) auto

lemma path_hd: "path h p as \<Longrightarrow> as \<noteq> [] \<Longrightarrow> p = Some (hd as) \<and> hd as < length h"
  by (cases as) auto

lemma store_or_push_ok:
  assumes ok: "heap_ok cfg s Ls St D" and fl: "filled cfg (heap s) Ls"
    and k: "unat seg < length Ls"
  obtains s' St' where
    "store_or_push cfg seg t s = Inr s'"
    "heap_ok cfg s'
       (if Suc (length (wheelPrimes (heap s ! hd (Ls ! unat seg)))) = BUCKETSIZE cfg
        then Ls[unat seg := pushed_addr s # Ls ! unat seg] else Ls) St' D"
    "filled cfg (heap s')
       (if Suc (length (wheelPrimes (heap s ! hd (Ls ! unat seg)))) = BUCKETSIZE cfg
        then Ls[unat seg := pushed_addr s # Ls ! unat seg] else Ls)"
    "wheelPrimes (heap s' ! hd (Ls ! unat seg)) = wheelPrimes (heap s ! hd (Ls ! unat seg)) @ [t]"
    "\<forall>a<length (heap s). a \<noteq> hd (Ls ! unat seg)
        \<longrightarrow> wheelPrimes (heap s' ! a) = wheelPrimes (heap s ! a)"
    "Suc (length (wheelPrimes (heap s ! hd (Ls ! unat seg)))) = BUCKETSIZE cfg
        \<longrightarrow> wheelPrimes (heap s' ! pushed_addr s) = [] \<and> pushed_addr s \<notin> set (concat Ls)"
    "\<forall>a\<in>set D. heap s' ! a = heap s ! a"
    "length (heap s) \<le> length (heap s')"
    "log2SieveSize_m s' = log2SieveSize_m s" "moduloSieveSize_m s' = moduloSieveSize_m s"
    "length (lists_m s') = length (lists_m s)"
    "length (heap s') = length (heap s)
       + (if Suc (length (wheelPrimes (heap s ! hd (Ls ! unat seg)))) = BUCKETSIZE cfg
             \<and> stock_m s = None then BUCKETS_PER_ALLOC cfg else 0)"
    "pointers_m s' = pointers_m s
       @ (if Suc (length (wheelPrimes (heap s ! hd (Ls ! unat seg)))) = BUCKETSIZE cfg
             \<and> stock_m s = None then [length (heap s)] else [])"
proof -
  let ?k = "unat seg"
  let ?b = "hd (Ls ! ?k)"
  let ?BS = "BUCKETSIZE cfg"
  let ?full = "Suc (length (wheelPrimes (heap s ! ?b))) = ?BS"
  note F = heap_ok_nth[OF ok k]
  note D = heap_okD[OF ok]
  have BS: "0 < ?BS" using fl by (simp add: filled_def)
  have flk: "Ls ! ?k \<noteq> []" "length (wheelPrimes (heap s ! ?b)) < ?BS"
    "\<forall>a\<in>set (tl (Ls ! ?k)). length (wheelPrimes (heap s ! a)) = ?BS"
    using fl k by (simp_all add: filled_def)
  have hd_in: "?b \<in> set (Ls ! ?k)" using flk(1) by simp
  have ptr: "lists_m s ! ?k = Some ?b" and b_lt: "?b < length (heap s)"
    using path_hd[OF F(1) flk(1)] by simp_all
  have b_St: "?b \<notin> set St" using F(3) hd_in by blast
  have b_D: "?b \<notin> set D" using F(4) hd_in by blast
  have b_tl: "?b \<notin> set (tl (Ls ! ?k))"
    using F(2) flk(1) by (cases "Ls ! ?k") auto
  have b_other: "?b \<notin> set (Ls ! j)" if "j < length Ls" "j \<noteq> ?k" for j
    using F(5) that hd_in by blast
  define b' where "b' = (heap s ! ?b)\<lparr>wheelPrimes := wheelPrimes (heap s ! ?b) @ [t]\<rparr>"
  define s1 where "s1 = s\<lparr>heap := (heap s)[?b := b']\<rparr>"
  have st: "Bucket_store cfg t (heap s ! ?b) = Inr (b', \<not> ?full)"
    using flk(2) BS by (auto simp: Bucket_store_def b'_def)
  have ok1: "heap_ok cfg s1 Ls St D"
    unfolding s1_def by (rule heap_ok_store[OF ok b_St]) (simp add: b'_def)
  have h1: "heap s1 ! ?b = b'" "\<forall>a. a \<noteq> ?b \<longrightarrow> heap s1 ! a = heap s ! a"
    "length (heap s1) = length (heap s)"
    using b_lt by (simp_all add: s1_def)
  have pa1: "pushed_addr s1 = pushed_addr s"
    by (cases "stock_m s") (simp_all add: pushed_addr_def s1_def)
  have fields1: "log2SieveSize_m s1 = log2SieveSize_m s" "moduloSieveSize_m s1 = moduloSieveSize_m s"
    "lists_m s1 = lists_m s" "stock_m s1 = stock_m s" "pointers_m s1 = pointers_m s"
    by (simp_all add: s1_def)
  have step: "store_or_push cfg seg t s = (if ?full then pushBucket cfg seg s1 else Inr s1)"
    using k F(7) ptr b_lt st by (simp add: store_or_push_def s1_def)
  have w1: "wheelPrimes (heap s1 ! ?b) = wheelPrimes (heap s ! ?b) @ [t]"
    by (simp add: h1(1) b'_def)
  show ?thesis
  proof (cases ?full)
    case False
    have r1: "store_or_push cfg seg t s = Inr s1" using step False by simp
    have fl1: "filled cfg (heap s1) Ls"
      unfolding filled_def
    proof (intro conjI allI impI ballI)
      show "0 < ?BS" by (rule BS)
      fix j assume j: "j < length Ls"
      show "Ls ! j \<noteq> []" using fl j by (simp add: filled_def)
      show "length (wheelPrimes (heap s1 ! hd (Ls ! j))) < ?BS"
      proof (cases "j = ?k")
        case True
        then show ?thesis using w1 flk(2) False by simp
      next
        case jk: False
        have "hd (Ls ! j) \<in> set (Ls ! j)" using fl j by (simp add: filled_def)
        then have "hd (Ls ! j) \<noteq> ?b" using b_other[OF j jk] by auto
        then show ?thesis using h1(2) fl j by (simp add: filled_def)
      qed
      fix a assume a: "a \<in> set (tl (Ls ! j))"
      have "a \<noteq> ?b"
      proof (cases "j = ?k")
        case True
        then show ?thesis using a b_tl by auto
      next
        case jk: False
        have "a \<in> set (Ls ! j)" using a by (rule in_set_tlD')
        then show ?thesis using b_other[OF j jk] by auto
      qed
      then show "length (wheelPrimes (heap s1 ! a)) = ?BS"
        using h1(2) fl j a by (simp add: filled_def)
    qed
    have r5: "\<forall>a<length (heap s). a \<noteq> ?b \<longrightarrow> wheelPrimes (heap s1 ! a) = wheelPrimes (heap s ! a)"
      using h1(2) by simp
    have r7: "\<forall>a\<in>set D. heap s1 ! a = heap s ! a"
    proof
      fix c assume "c \<in> set D"
      then have "c \<noteq> ?b" using b_D by auto
      then show "heap s1 ! c = heap s ! c" using h1(2) by simp
    qed
    show ?thesis
      using that[of s1 St] r1 ok1 fl1 w1 r5 r7 h1(3) fields1 False by simp
  next
    case True
    obtain s' St' where P:
      "pushBucket cfg seg s1 = Inr s'"
      "heap_ok cfg s' (Ls[?k := pushed_addr s1 # Ls ! ?k]) St' D"
      "wheelPrimes (heap s' ! pushed_addr s1) = []"
      "\<forall>b<length (heap s1). wheelPrimes (heap s' ! b) = wheelPrimes (heap s1 ! b)"
      "\<forall>b<length (heap s1). b \<noteq> pushed_addr s1 \<longrightarrow> heap s' ! b = heap s1 ! b"
      "length (heap s1) \<le> length (heap s')"
      "log2SieveSize_m s' = log2SieveSize_m s1" "moduloSieveSize_m s' = moduloSieveSize_m s1"
      "length (lists_m s') = length (lists_m s1)"
      "St' = (case St of [] \<Rightarrow> [Suc (length (heap s1))..<length (heap s1) + BUCKETS_PER_ALLOC cfg]
                     | b # bs \<Rightarrow> bs)"
      "length (heap s') = length (heap s1) + (if stock_m s1 = None then BUCKETS_PER_ALLOC cfg else 0)"
      "pointers_m s' = pointers_m s1 @ (if stock_m s1 = None then [length (heap s1)] else [])"
      by (rule pushBucket_ok[OF ok1 k])
    let ?a = "pushed_addr s"
    let ?Ls' = "Ls[?k := ?a # Ls ! ?k]"
    note D' = heap_okD[OF P(2)[unfolded pa1]]
    have ms: "mset (concat ?Ls') = add_mset ?a (mset (concat Ls))"
      by (rule concat_update_mset[OF k])
    have "distinct (concat ?Ls')" using D'(3) by simp
    then have "distinct (?a # concat Ls)"
      using mset_eq_imp_distinct_iff[of "concat ?Ls'" "?a # concat Ls"] ms by simp
    then have a_new: "?a \<notin> set (concat Ls)" by simp
    have a_in: "?a \<in> set (concat ?Ls')" using mset_eq_setD[of "concat ?Ls'" "?a # concat Ls"] ms by simp
    have a_D: "?a \<notin> set D" using D'(3) a_in by auto
    have a_b: "?a \<noteq> ?b" using a_new nth_subset_concat[OF k] hd_in by auto
    have r1: "store_or_push cfg seg t s = Inr s'" using step True P(1) by simp
    have wp: "wheelPrimes (heap s' ! c) = wheelPrimes (heap s1 ! c)" if "c < length (heap s)" for c
      using P(4) that h1(3) by simp
    have r4: "wheelPrimes (heap s' ! ?b) = wheelPrimes (heap s ! ?b) @ [t]"
      using wp[OF b_lt] w1 by simp
    have r5: "\<forall>a<length (heap s). a \<noteq> ?b \<longrightarrow> wheelPrimes (heap s' ! a) = wheelPrimes (heap s ! a)"
      using wp h1(2) by simp
    have r7: "\<forall>a\<in>set D. heap s' ! a = heap s ! a"
    proof
      fix c assume c: "c \<in> set D"
      have c_lt: "c < length (heap s)" using D(4) c by auto
      have "c \<noteq> ?a" "c \<noteq> ?b" using c a_D b_D by auto
      then show "heap s' ! c = heap s ! c" using P(5) c_lt h1(2,3) pa1 by simp
    qed
    have fl': "filled cfg (heap s') ?Ls'"
      unfolding filled_def
    proof (intro conjI allI impI ballI)
      show "0 < ?BS" by (rule BS)
      fix j assume "j < length ?Ls'"
      then have j: "j < length Ls" by simp
      have oldj: "Ls ! j \<noteq> []" "length (wheelPrimes (heap s ! hd (Ls ! j))) < ?BS"
        "\<forall>a\<in>set (tl (Ls ! j)). length (wheelPrimes (heap s ! a)) = ?BS"
        using fl j by (simp_all add: filled_def)
      have lt_j: "\<forall>a\<in>set (Ls ! j). a < length (heap s)"
        using heap_ok_nth(6)[OF ok j] .
      show "?Ls' ! j \<noteq> []" using oldj(1) j by (cases "j = ?k") simp_all
      show "length (wheelPrimes (heap s' ! hd (?Ls' ! j))) < ?BS"
      proof (cases "j = ?k")
        case True
        then show ?thesis using P(3) pa1 BS k by simp
      next
        case jk: False
        have hj: "hd (Ls ! j) \<in> set (Ls ! j)" using oldj(1) by simp
        then have "hd (Ls ! j) \<noteq> ?b" using b_other[OF j jk] by auto
        then show ?thesis using jk wp hj lt_j h1(2) oldj(2) by simp
      qed
      fix a assume a: "a \<in> set (tl (?Ls' ! j))"
      show "length (wheelPrimes (heap s' ! a)) = ?BS"
      proof (cases "j = ?k")
        case jk: True
        then have ain: "a \<in> set (Ls ! ?k)" using a k by simp
        then have alt: "a < length (heap s)" using F(6) by blast
        show ?thesis
        proof (cases "a = ?b")
          case True
          then show ?thesis using r4 \<open>?full\<close> by simp
        next
          case False
          then have "a \<in> set (tl (Ls ! ?k))" using ain flk(1) by (cases "Ls ! ?k") auto
          then show ?thesis using flk(3) r5 alt False by simp
        qed
      next
        case jk: False
        then have atl: "a \<in> set (tl (Ls ! j))" using a by simp
        then have ain: "a \<in> set (Ls ! j)" by (rule in_set_tlD')
        then have "a \<noteq> ?b" using b_other[OF j jk] by auto
        then show ?thesis using r5 lt_j ain oldj(3) atl by simp
      qed
    qed
    show ?thesis
      using that[of s' St'] r1 P(2)[unfolded pa1] fl' r4 r5 P(3)[unfolded pa1] a_new r7
        P(6,7,8,9,11,12) h1(3) fields1 True by simp
  qed
qed

lemma pushBucket_fields:
  "pushBucket cfg seg s = Inr s' \<Longrightarrow>
     log2SieveSize_m s' = log2SieveSize_m s \<and> moduloSieveSize_m s' = moduloSieveSize_m s"
  by (auto simp: pushBucket_def Let_def split: if_splits option.splits)

lemma store_or_push_fields:
  "store_or_push cfg seg t s = Inr s' \<Longrightarrow>
     log2SieveSize_m s' = log2SieveSize_m s \<and> moduloSieveSize_m s' = moduloSieveSize_m s"
  by (auto simp: store_or_push_def Let_def dest!: pushBucket_fields
      split: if_splits option.splits sum.splits)

lemma crossOff_one_eq:
  "crossOff_one cfg (p, m, w) (s, sieve) =
     (case unsetBit cfg sieve p m w of
        Inl e \<Rightarrow> Inl e
      | Inr (sieve', m', w') \<Rightarrow>
          (case store_or_push cfg (drop_bit (unat (log2SieveSize_m s)) m')
                  (p, m' AND moduloSieveSize_m s, w') s of
             Inl e \<Rightarrow> Inl e
           | Inr s' \<Rightarrow> Inr (s', sieve')))"
  by (simp add: crossOff_one_def Let_def split: sum.splits prod.splits)

lemma crossOff_loop_naive:
  "crossOff_loop cfg wps ss = Inr r \<longleftrightarrow> crossOff_naive cfg wps ss = Inr r"
proof (induction cfg wps ss rule: crossOff_loop.induct)
  case (1 cfg p0 m0 w0 p1 m1 w1 rest s sieve)
  show ?case
  proof (cases "unsetBit cfg sieve p0 m0 w0")
    case (Inl e)
    then show ?thesis by (simp add: crossOff_one_eq)
  next
    case u0: (Inr r0)
    obtain sv0 m0' w0' where r0: "r0 = (sv0, m0', w0')" by (cases r0) auto
    show ?thesis
    proof (cases "unsetBit cfg sv0 p1 m1 w1")
      case (Inl e)
      then show ?thesis using u0 r0
        by (auto simp: crossOff_one_eq Let_def split: sum.splits)
    next
      case u1: (Inr r1)
      obtain sv1 m1' w1' where r1: "r1 = (sv1, m1', w1')" by (cases r1) auto
      let ?L = "unat (log2SieveSize_m s)"
      show ?thesis
      proof (cases "store_or_push cfg (drop_bit ?L m0') (p0, m0' AND moduloSieveSize_m s, w0') s")
        case (Inl e)
        then show ?thesis using u0 r0 u1 r1 by (simp add: crossOff_one_eq Let_def)
      next
        case st0: (Inr s0)
        note f0 = store_or_push_fields[OF st0]
        show ?thesis
        proof (cases "store_or_push cfg (drop_bit ?L m1') (p1, m1' AND moduloSieveSize_m s, w1') s0")
          case (Inl e)
          then show ?thesis using u0 r0 u1 r1 st0 f0 by (simp add: crossOff_one_eq Let_def)
        next
          case st1: (Inr s1)
          have IH: "crossOff_loop cfg rest (s1, sv1) = Inr r \<longleftrightarrow> crossOff_naive cfg rest (s1, sv1) = Inr r"
            by (rule "1.IH"[OF u0[unfolded r0] refl refl u1[unfolded r1] refl refl refl refl refl refl
                  st0 st1])
          show ?thesis using u0 r0 u1 r1 st0 st1 f0 IH by (simp add: crossOff_one_eq Let_def)
        qed
      qed
    qed
  qed
next
  case (2 cfg p m w s sieve)
  then show ?case
    by (simp add: crossOff_one_eq Let_def split: sum.splits prod.splits)
next
  case (3 cfg s sieve)
  then show ?case by simp
qed

lemma frame_refl: "frame s s D"
  by (simp add: frame_def)

lemma frame_trans: "frame s s1 D \<Longrightarrow> frame s1 s2 D \<Longrightarrow> frame s s2 D"
  by (simp add: frame_def)

lemma frame_subset: "frame s s' D \<Longrightarrow> set D' \<subseteq> set D \<Longrightarrow> frame s s' D'"
  by (auto simp: frame_def)

lemma triples_of_cong:
  "\<forall>a\<in>set as. wheelPrimes (h' ! a) = wheelPrimes (h ! a) \<Longrightarrow> triples_of h' as = triples_of h as"
  by (induction as) (simp_all add: triples_of_def)

lemma triples_of_Cons: "triples_of h (a # as) = wheelPrimes (h ! a) @ triples_of h as"
  by (simp add: triples_of_def)

lemma triples_of_Nil: "triples_of h [] = []"
  by (simp add: triples_of_def)

lemma routed_to_Nil: "routed_to cfg L M j [] = []"
  by (simp add: routed_to_def)

lemma routed_to_Cons:
  "routed_to cfg L M j (t # ts) =
     (if unat (fst (reroute cfg L M t)) = j then [snd (reroute cfg L M t)] else [])
       @ routed_to cfg L M j ts"
  by (simp add: routed_to_def)

lemma routed_to_append:
  "routed_to cfg L M j (ts @ us) = routed_to cfg L M j ts @ routed_to cfg L M j us"
  by (simp add: routed_to_def)

lemma length_clear_multiple: "length (clear_multiple cfg sieve t) = length sieve"
  by (simp add: clear_multiple_def split: prod.splits)

lemma store_step:
  assumes ok: "state_ok cfg s Ls St D" and k: "unat seg < length Ls"
  shows "\<exists>s' Ls' St'. store_or_push cfg seg t s = Inr s' \<and> state_ok cfg s' Ls' St' D \<and>
           length Ls' = length Ls \<and>
           (\<forall>j<length Ls. mset (triples_of (heap s') (Ls' ! j))
                = mset (triples_of (heap s) (Ls ! j)) + (if j = unat seg then {#t#} else {#})) \<and>
           frame s s' D"
proof -
  let ?k = "unat seg"
  let ?b = "hd (Ls ! ?k)"
  let ?full = "Suc (length (wheelPrimes (heap s ! ?b))) = BUCKETSIZE cfg"
  let ?a = "pushed_addr s"
  let ?Ls' = "if ?full then Ls[?k := ?a # Ls ! ?k] else Ls"
  have hok: "heap_ok cfg s Ls St D" and fl: "filled cfg (heap s) Ls"
    using ok by (simp_all add: state_ok_def)
  obtain s' St' where R:
    "store_or_push cfg seg t s = Inr s'"
    "heap_ok cfg s' ?Ls' St' D"
    "filled cfg (heap s') ?Ls'"
    "wheelPrimes (heap s' ! ?b) = wheelPrimes (heap s ! ?b) @ [t]"
    "\<forall>a<length (heap s). a \<noteq> ?b \<longrightarrow> wheelPrimes (heap s' ! a) = wheelPrimes (heap s ! a)"
    "?full \<longrightarrow> wheelPrimes (heap s' ! ?a) = [] \<and> ?a \<notin> set (concat Ls)"
    "\<forall>a\<in>set D. heap s' ! a = heap s ! a"
    "length (heap s) \<le> length (heap s')"
    "log2SieveSize_m s' = log2SieveSize_m s" "moduloSieveSize_m s' = moduloSieveSize_m s"
    "length (lists_m s') = length (lists_m s)"
    using store_or_push_ok[OF hok fl k, of t] by metis
  note F = heap_ok_nth[OF hok k]
  have ne: "Ls ! ?k \<noteq> []" using fl k by (simp add: filled_def)
  then obtain b0 tl where Lk: "Ls ! ?k = b0 # tl" by (cases "Ls ! ?k") auto
  have hb: "?b = b0" by (simp add: Lk)
  have b_tl: "?b \<notin> set tl" using F(2) unfolding hb Lk by simp
  have same: "triples_of (heap s') as = triples_of (heap s) as"
    if "\<forall>a\<in>set as. a < length (heap s) \<and> a \<noteq> ?b" for as
  proof (rule triples_of_cong, rule ballI)
    fix a assume "a \<in> set as"
    then have "a < length (heap s)" "a \<noteq> ?b" using that by blast+
    then show "wheelPrimes (heap s' ! a) = wheelPrimes (heap s ! a)" using R(5) by blast
  qed
  have tl_lt: "\<forall>a\<in>set tl. a < length (heap s) \<and> a \<noteq> ?b"
  proof
    fix a assume a: "a \<in> set tl"
    then have "a \<in> set (Ls ! ?k)" unfolding Lk by simp
    then have "a < length (heap s)" using F(6) by blast
    moreover have "a \<noteq> ?b" using a b_tl by blast
    ultimately show "a < length (heap s) \<and> a \<noteq> ?b" by blast
  qed
  have "triples_of (heap s') (b0 # tl) = (wheelPrimes (heap s ! b0) @ [t]) @ triples_of (heap s) tl"
    using same[OF tl_lt] R(4)[unfolded hb] by (simp add: triples_of_Cons)
  then have old_k: "mset (triples_of (heap s') (Ls ! ?k)) = mset (triples_of (heap s) (Ls ! ?k)) + {#t#}"
    unfolding Lk by (simp add: triples_of_Cons)
  have acc: "mset (triples_of (heap s') (?Ls' ! j))
                = mset (triples_of (heap s) (Ls ! j)) + (if j = ?k then {#t#} else {#})"
    if j: "j < length Ls" for j
  proof (cases "j = ?k")
    case True
    show ?thesis
    proof (cases ?full)
      case full: True
      then have "?Ls' ! j = ?a # Ls ! ?k" using True k by simp
      then show ?thesis using old_k R(6) full True by (simp add: triples_of_Cons)
    next
      case False
      then show ?thesis using old_k True by simp
    qed
  next
    case False
    have "\<forall>a\<in>set (Ls ! j). a < length (heap s) \<and> a \<noteq> ?b"
    proof
      fix a assume a: "a \<in> set (Ls ! j)"
      have "?b \<in> set (Ls ! ?k)" using ne by simp
      then have "a \<noteq> ?b" using F(5) j False a by blast
      then show "a < length (heap s) \<and> a \<noteq> ?b" using heap_ok_nth(6)[OF hok j] a by blast
    qed
    from same[OF this] show ?thesis using False by simp
  qed
  have fr: "frame s s' D" using R(7-11) by (simp add: frame_def)
  have so: "state_ok cfg s' ?Ls' St' D" using R(2,3) by (simp add: state_ok_def)
  have len: "length ?Ls' = length Ls" by simp
  show ?thesis
    using R(1) so len acc fr by blast
qed

lemma crossOff_one_ok:
  assumes ok: "state_ok cfg s Ls St D"
    and k: "unat (fst (reroute cfg (log2SieveSize_m s) (moduloSieveSize_m s) t)) < length Ls"
    and sv: "unat (fst (snd t)) < length sieve"
  shows "\<exists>s' Ls' St'. crossOff_one cfg t (s, sieve) = Inr (s', clear_multiple cfg sieve t) \<and>
           state_ok cfg s' Ls' St' D \<and> length Ls' = length Ls \<and>
           (\<forall>j<length Ls. mset (triples_of (heap s') (Ls' ! j))
                = mset (triples_of (heap s) (Ls ! j))
                  + mset (routed_to cfg (log2SieveSize_m s) (moduloSieveSize_m s) j [t])) \<and>
           frame s s' D"
proof -
  obtain p m w where t: "t = (p, m, w)" by (cases t) auto
  let ?r = "reroute cfg (log2SieveSize_m s) (moduloSieveSize_m s) t"
  have u: "unsetBit cfg sieve p m w
            = Inr (clear_multiple cfg sieve t,
                   m + p * nextMultipleFactor (WHEEL cfg w) + correct (WHEEL cfg w),
                   nextWheelIndex (WHEEL cfg w))"
    using sv by (simp add: unsetBit_def clear_multiple_def t)
  have r: "?r = (drop_bit (unat (log2SieveSize_m s))
                   (m + p * nextMultipleFactor (WHEEL cfg w) + correct (WHEEL cfg w)),
                 (p, (m + p * nextMultipleFactor (WHEEL cfg w) + correct (WHEEL cfg w))
                       AND moduloSieveSize_m s, nextWheelIndex (WHEEL cfg w)))"
    by (simp add: reroute_def t Let_def)
  obtain s' Ls' St' where S:
    "store_or_push cfg (fst ?r) (snd ?r) s = Inr s'" "state_ok cfg s' Ls' St' D"
    "length Ls' = length Ls"
    "\<forall>j<length Ls. mset (triples_of (heap s') (Ls' ! j))
        = mset (triples_of (heap s) (Ls ! j)) + (if j = unat (fst ?r) then {#snd ?r#} else {#})"
    "frame s s' D"
    using store_step[OF ok k, of "snd ?r"] by blast
  have c: "crossOff_one cfg t (s, sieve) = Inr (s', clear_multiple cfg sieve t)"
    using S(1) u r by (simp add: t crossOff_one_eq)
  have acc: "\<forall>j<length Ls. mset (triples_of (heap s') (Ls' ! j))
                = mset (triples_of (heap s) (Ls ! j))
                  + mset (routed_to cfg (log2SieveSize_m s) (moduloSieveSize_m s) j [t])"
    using S(4) by (simp add: routed_to_Cons routed_to_Nil)
  show ?thesis using c S(2,3,5) acc by blast
qed

lemma crossOff_naive_ok:
  assumes "state_ok cfg s Ls St D"
    and "\<forall>t\<in>set ts. unat (fst (reroute cfg (log2SieveSize_m s) (moduloSieveSize_m s) t)) < length Ls
                   \<and> unat (fst (snd t)) < length sieve"
  shows "\<exists>s' Ls' St'. crossOff_naive cfg ts (s, sieve) = Inr (s', foldl (clear_multiple cfg) sieve ts) \<and>
           state_ok cfg s' Ls' St' D \<and> length Ls' = length Ls \<and>
           (\<forall>j<length Ls. mset (triples_of (heap s') (Ls' ! j))
                = mset (triples_of (heap s) (Ls ! j))
                  + mset (routed_to cfg (log2SieveSize_m s) (moduloSieveSize_m s) j ts)) \<and>
           frame s s' D"
  using assms
proof (induction ts arbitrary: s Ls St sieve)
  case Nil
  then show ?case
    by (auto simp: routed_to_Nil frame_refl intro!: exI[of _ s] exI[of _ Ls] exI[of _ St])
next
  case (Cons t ts)
  let ?L = "log2SieveSize_m s" and ?M = "moduloSieveSize_m s"
  have k: "unat (fst (reroute cfg ?L ?M t)) < length Ls" and sv: "unat (fst (snd t)) < length sieve"
    using Cons.prems(2) by simp_all
  obtain s1 Ls1 St1 where A:
    "crossOff_one cfg t (s, sieve) = Inr (s1, clear_multiple cfg sieve t)"
    "state_ok cfg s1 Ls1 St1 D" "length Ls1 = length Ls"
    "\<forall>j<length Ls. mset (triples_of (heap s1) (Ls1 ! j))
        = mset (triples_of (heap s) (Ls ! j)) + mset (routed_to cfg ?L ?M j [t])"
    "frame s s1 D"
    using crossOff_one_ok[OF Cons.prems(1) k sv] by blast
  have f1: "log2SieveSize_m s1 = ?L" "moduloSieveSize_m s1 = ?M"
    using A(5) by (simp_all add: frame_def)
  have pre: "\<forall>u\<in>set ts. unat (fst (reroute cfg (log2SieveSize_m s1) (moduloSieveSize_m s1) u)) < length Ls1
                   \<and> unat (fst (snd u)) < length (clear_multiple cfg sieve t)"
    using Cons.prems(2) A(3) f1 by (simp add: length_clear_multiple)
  obtain s' Ls' St' where B:
    "crossOff_naive cfg ts (s1, clear_multiple cfg sieve t)
       = Inr (s', foldl (clear_multiple cfg) (clear_multiple cfg sieve t) ts)"
    "state_ok cfg s' Ls' St' D" "length Ls' = length Ls1"
    "\<forall>j<length Ls1. mset (triples_of (heap s') (Ls' ! j))
        = mset (triples_of (heap s1) (Ls1 ! j)) + mset (routed_to cfg ?L ?M j ts)"
    "frame s1 s' D"
    using Cons.IH[OF A(2) pre] f1 by auto
  have r: "crossOff_naive cfg (t # ts) (s, sieve) = Inr (s', foldl (clear_multiple cfg) sieve (t # ts))"
    using A(1) B(1) by simp
  have acc: "\<forall>j<length Ls. mset (triples_of (heap s') (Ls' ! j))
        = mset (triples_of (heap s) (Ls ! j)) + mset (routed_to cfg ?L ?M j (t # ts))"
  proof (intro allI impI)
    fix j assume j: "j < length Ls"
    have "routed_to cfg ?L ?M j (t # ts) = routed_to cfg ?L ?M j [t] @ routed_to cfg ?L ?M j ts"
      using routed_to_append[of cfg ?L ?M j "[t]" ts] by simp
    then show "mset (triples_of (heap s') (Ls' ! j))
        = mset (triples_of (heap s) (Ls ! j)) + mset (routed_to cfg ?L ?M j (t # ts))"
      using A(3,4) B(4) j by simp
  qed
  have len: "length Ls' = length Ls" using A(3) B(3) by simp
  show ?case using r B(2) len acc frame_trans[OF A(5) B(5)] by blast
qed

lemma length_foldl_clear: "length (foldl (clear_multiple cfg) sieve ts) = length sieve"
  by (induction ts arbitrary: sieve) (simp_all add: length_clear_multiple)

lemma recycle_ok:
  assumes ok: "state_ok cfg s Ls St (b # D)"
  shows "state_ok cfg (recycle b s) Ls (b # St) D"
    and "\<forall>a. a \<noteq> b \<longrightarrow> heap (recycle b s) ! a = heap s ! a"
    and "frame s (recycle b s) D"
proof -
  let ?s' = "recycle b s"
  let ?h' = "heap ?s'"
  have hok: "heap_ok cfg s Ls St (b # D)" and fl: "filled cfg (heap s) Ls"
    using ok by (simp_all add: state_ok_def)
  note H = heap_okD[OF hok]
  have h': "?h' = (heap s)[b := Bucket_setNext (stock_m s) (Bucket_reset (heap s ! b))]"
    by (simp add: recycle_def)
  have b_in: "b \<in> set (concat Ls @ St @ (b # D))" by simp
  have b_lt: "b < length (heap s)" using H(4) b_in by blast
  have b_notin: "b \<notin> set (concat Ls)" "b \<notin> set St" "b \<notin> set D"
    using H(3) by auto
  show other: "\<forall>a. a \<noteq> b \<longrightarrow> ?h' ! a = heap s ! a"
    unfolding h' by (metis nth_list_update_neq)
  have hb: "?h' ! b = \<lparr>wheelPrimes = [], next_m = stock_m s\<rparr>"
    using b_lt by (simp add: h' Bucket_setNext_def Bucket_reset_def)
  have lenh: "length ?h' = length (heap s)" by (simp add: h')
  have keep: "path ?h' p as" if "path (heap s) p as" "b \<notin> set as" for p as
  proof (rule path_cong[OF that(1)])
    show "length (heap s) \<le> length ?h'" by (simp add: lenh)
    show "\<forall>a\<in>set as. next_m (?h' ! a) = next_m (heap s ! a)"
    proof
      fix a assume "a \<in> set as"
      then have "a \<noteq> b" using that(2) by auto
      then show "next_m (?h' ! a) = next_m (heap s ! a)" using other by simp
    qed
  qed
  have len: "length (lists_m s) = length Ls" using H(1) by (rule list_all2_lengthD)
  have p1: "list_all2 (path ?h') (lists_m ?s') Ls"
    unfolding list_all2_conv_all_nth
  proof (intro conjI allI impI)
    show "length (lists_m ?s') = length Ls" using len by (simp add: recycle_def)
    fix j assume "j < length (lists_m ?s')"
    then have j: "j < length Ls" using len by (simp add: recycle_def)
    have "b \<notin> set (Ls ! j)" using b_notin(1) nth_subset_concat[OF j] by blast
    then have "path ?h' (lists_m s ! j) (Ls ! j)"
      using keep heap_ok_nth(1)[OF hok j] by blast
    then show "path ?h' (lists_m ?s' ! j) (Ls ! j)" by (simp add: recycle_def)
  qed
  have "path ?h' (stock_m s) St" using keep[OF H(2) b_notin(2)] .
  then have p2: "path ?h' (stock_m ?s') (b # St)"
    using b_lt hb lenh by (simp add: recycle_def)
  have ms: "mset (concat Ls @ (b # St) @ D) = mset (concat Ls @ St @ (b # D))" by simp
  have d: "distinct (concat Ls @ (b # St) @ D)"
    using H(3) mset_eq_imp_distinct_iff[OF ms] by blast
  have c: "set (concat Ls @ (b # St) @ D) = {..<length ?h'}"
    using H(4) mset_eq_setD[OF ms] lenh by simp
  have e: "\<forall>a\<in>set (b # St). wheelPrimes (?h' ! a) = []"
  proof
    fix a assume a: "a \<in> set (b # St)"
    show "wheelPrimes (?h' ! a) = []"
    proof (cases "a = b")
      case True
      then show ?thesis using hb by simp
    next
      case False
      then have "a \<in> set St" using a by simp
      then show ?thesis using H(5) other False by simp
    qed
  qed
  have rest: "pointers_m ?s' = pointers_m s" by (simp add: recycle_def)
  have hok': "heap_ok cfg ?s' Ls (b # St) D"
    by (rule heap_okI) (use p1 p2 d c e H(6,7,8) rest lenh in simp_all)
  have fl': "filled cfg ?h' Ls"
    unfolding filled_def
  proof (intro conjI allI impI ballI)
    show "0 < BUCKETSIZE cfg" using fl by (simp add: filled_def)
    fix j assume j: "j < length Ls"
    have nb: "b \<notin> set (Ls ! j)" using b_notin(1) nth_subset_concat[OF j] by blast
    show ne: "Ls ! j \<noteq> []" using fl j by (simp add: filled_def)
    have "hd (Ls ! j) \<noteq> b" using nb ne by (metis hd_in_set)
    then show "length (wheelPrimes (?h' ! hd (Ls ! j))) < BUCKETSIZE cfg"
      using other fl j by (simp add: filled_def)
    fix a assume a: "a \<in> set (tl (Ls ! j))"
    then have "a \<noteq> b" using nb in_set_tlD'[OF a] by blast
    then show "length (wheelPrimes (?h' ! a)) = BUCKETSIZE cfg"
      using other fl j a by (simp add: filled_def)
  qed
  show "state_ok cfg ?s' Ls (b # St) D" using hok' fl' by (simp add: state_ok_def)
  show "frame s ?s' D"
    unfolding frame_def
  proof (intro conjI ballI)
    fix a assume "a \<in> set D"
    then have "a \<noteq> b" using b_notin(3) by auto
    then show "?h' ! a = heap s ! a" using other by simp
  qed (simp_all add: recycle_def)
qed

lemma crossOff_chain_unfold:
  "b < length (heap s) \<Longrightarrow> crossOff_Bucket cfg b (s, sieve) = Inr (s1, sieve1) \<Longrightarrow>
   crossOff_chain cfg (Some b) (s, sieve) =
     (if next_m (heap s1 ! b) \<noteq> None
      then crossOff_chain cfg (next_m (heap s1 ! b)) (recycle b s1, sieve1)
      else Some (Inr (recycle b s1, sieve1)))"
  by (subst crossOff_chain.simps) (simp add: recycle_def Let_def)

lemma crossOff_chain_ok:
  assumes "state_ok cfg s Ls St (b # D)"
    and "path (heap s) (Some b) (b # D)"
    and "\<forall>t\<in>set (triples_of (heap s) (b # D)).
           unat (fst (reroute cfg (log2SieveSize_m s) (moduloSieveSize_m s) t)) < length Ls
           \<and> unat (fst (snd t)) < length sieve"
  shows "\<exists>s' Ls' St'. crossOff_chain cfg (Some b) (s, sieve)
             = Some (Inr (s', foldl (clear_multiple cfg) sieve (triples_of (heap s) (b # D)))) \<and>
           state_ok cfg s' Ls' St' [] \<and> length Ls' = length Ls \<and>
           (\<forall>j<length Ls. mset (triples_of (heap s') (Ls' ! j))
                = mset (triples_of (heap s) (Ls ! j))
                  + mset (routed_to cfg (log2SieveSize_m s) (moduloSieveSize_m s) j
                            (triples_of (heap s) (b # D)))) \<and>
           frame s s' []"
  using assms
proof (induction D arbitrary: b s Ls St sieve)
  case Nil
  let ?L = "log2SieveSize_m s" and ?M = "moduloSieveSize_m s"
  let ?T = "wheelPrimes (heap s ! b)"
  have T: "triples_of (heap s) [b] = ?T" by (simp add: triples_of_def)
  have b_lt: "b < length (heap s)" and nx: "next_m (heap s ! b) = None"
    using Nil.prems(2) by simp_all
  obtain s1 Ls1 St1 where A:
    "crossOff_naive cfg ?T (s, sieve) = Inr (s1, foldl (clear_multiple cfg) sieve ?T)"
    "state_ok cfg s1 Ls1 St1 [b]" "length Ls1 = length Ls"
    "\<forall>j<length Ls. mset (triples_of (heap s1) (Ls1 ! j))
        = mset (triples_of (heap s) (Ls ! j)) + mset (routed_to cfg ?L ?M j ?T)"
    "frame s s1 [b]"
    using crossOff_naive_ok[OF Nil.prems(1), of ?T sieve] Nil.prems(3) T by auto
  have cb: "crossOff_Bucket cfg b (s, sieve) = Inr (s1, foldl (clear_multiple cfg) sieve ?T)"
    using A(1) by (simp add: crossOff_Bucket_def crossOff_loop_naive)
  have same_b: "heap s1 ! b = heap s ! b" using A(5) by (simp add: frame_def)
  note R = recycle_ok[OF A(2)]
  have res: "crossOff_chain cfg (Some b) (s, sieve)
               = Some (Inr (recycle b s1, foldl (clear_multiple cfg) sieve ?T))"
    using crossOff_chain_unfold[OF b_lt cb] same_b nx by simp
  have acc: "\<forall>j<length Ls. mset (triples_of (heap (recycle b s1)) (Ls1 ! j))
        = mset (triples_of (heap s) (Ls ! j)) + mset (routed_to cfg ?L ?M j ?T)"
  proof (intro allI impI)
    fix j assume j: "j < length Ls"
    have hok1: "heap_ok cfg s1 Ls1 St1 [b]" using A(2) by (simp add: state_ok_def)
    have "b \<notin> set (Ls1 ! j)" using heap_ok_nth(4)[OF hok1, of j] j A(3) by auto
    then have "\<forall>a\<in>set (Ls1 ! j). wheelPrimes (heap (recycle b s1) ! a) = wheelPrimes (heap s1 ! a)"
      using R(2) by (metis)
    from triples_of_cong[OF this] show "mset (triples_of (heap (recycle b s1)) (Ls1 ! j))
        = mset (triples_of (heap s) (Ls ! j)) + mset (routed_to cfg ?L ?M j ?T)"
      using A(4) j by simp
  qed
  have fr: "frame s (recycle b s1) []"
    using frame_trans[OF frame_subset[OF A(5), of "[]"] R(3)] by simp
  show ?case
    using res R(1) A(3) acc fr unfolding T by blast
next
  case (Cons d D)
  let ?L = "log2SieveSize_m s" and ?M = "moduloSieveSize_m s"
  let ?T = "wheelPrimes (heap s ! b)"
  let ?U = "triples_of (heap s) (d # D)"
  have T: "triples_of (heap s) (b # d # D) = ?T @ ?U" by (simp add: triples_of_def)
  have b_lt: "b < length (heap s)" and nx: "next_m (heap s ! b) = Some d"
    and pd: "path (heap s) (Some d) (d # D)"
    using Cons.prems(2) by simp_all
  have preT: "\<forall>t\<in>set ?T. unat (fst (reroute cfg ?L ?M t)) < length Ls \<and> unat (fst (snd t)) < length sieve"
    using Cons.prems(3) unfolding T by simp
  have preU: "\<forall>t\<in>set ?U. unat (fst (reroute cfg ?L ?M t)) < length Ls \<and> unat (fst (snd t)) < length sieve"
    using Cons.prems(3) unfolding T by simp
  obtain s1 Ls1 St1 where A:
    "crossOff_naive cfg ?T (s, sieve) = Inr (s1, foldl (clear_multiple cfg) sieve ?T)"
    "state_ok cfg s1 Ls1 St1 (b # d # D)" "length Ls1 = length Ls"
    "\<forall>j<length Ls. mset (triples_of (heap s1) (Ls1 ! j))
        = mset (triples_of (heap s) (Ls ! j)) + mset (routed_to cfg ?L ?M j ?T)"
    "frame s s1 (b # d # D)"
    using crossOff_naive_ok[OF Cons.prems(1) preT] by blast
  have cb: "crossOff_Bucket cfg b (s, sieve) = Inr (s1, foldl (clear_multiple cfg) sieve ?T)"
    using A(1) by (simp add: crossOff_Bucket_def crossOff_loop_naive)
  have same_b: "heap s1 ! b = heap s ! b" using A(5) by (simp add: frame_def)
  note R = recycle_ok[OF A(2)]
  let ?s2 = "recycle b s1"
  let ?sv = "foldl (clear_multiple cfg) sieve ?T"
  have res: "crossOff_chain cfg (Some b) (s, sieve) = crossOff_chain cfg (Some d) (?s2, ?sv)"
    using crossOff_chain_unfold[OF b_lt cb] same_b nx by simp
  have fr02: "frame s ?s2 (d # D)"
    by (rule frame_trans[OF frame_subset[OF A(5)] R(3)]) auto
  have f2: "log2SieveSize_m ?s2 = ?L" "moduloSieveSize_m ?s2 = ?M"
    "\<forall>a\<in>set (d # D). heap ?s2 ! a = heap s ! a" "length (heap s) \<le> length (heap ?s2)"
    using fr02 by (simp_all add: frame_def)
  have pd2: "path (heap ?s2) (Some d) (d # D)"
    by (rule path_cong[OF pd f2(4)]) (use f2(3) in simp)
  have U2: "triples_of (heap ?s2) (d # D) = ?U"
    by (rule triples_of_cong) (use f2(3) in simp)
  have pre2: "\<forall>t\<in>set (triples_of (heap ?s2) (d # D)).
           unat (fst (reroute cfg (log2SieveSize_m ?s2) (moduloSieveSize_m ?s2) t)) < length Ls1
           \<and> unat (fst (snd t)) < length ?sv"
    using preU A(3) unfolding U2 f2(1,2) by (simp add: length_foldl_clear)
  obtain s' Ls' St' where B:
    "crossOff_chain cfg (Some d) (?s2, ?sv)
       = Some (Inr (s', foldl (clear_multiple cfg) ?sv (triples_of (heap ?s2) (d # D))))"
    "state_ok cfg s' Ls' St' []" "length Ls' = length Ls1"
    "\<forall>j<length Ls1. mset (triples_of (heap s') (Ls' ! j))
        = mset (triples_of (heap ?s2) (Ls1 ! j))
          + mset (routed_to cfg (log2SieveSize_m ?s2) (moduloSieveSize_m ?s2) j
                    (triples_of (heap ?s2) (d # D)))"
    "frame ?s2 s' []"
    using Cons.IH[OF R(1) pd2 pre2] by blast
  have res': "crossOff_chain cfg (Some b) (s, sieve)
               = Some (Inr (s', foldl (clear_multiple cfg) sieve (triples_of (heap s) (b # d # D))))"
    using res B(1) unfolding U2 T by simp
  have acc: "\<forall>j<length Ls. mset (triples_of (heap s') (Ls' ! j))
                = mset (triples_of (heap s) (Ls ! j))
                  + mset (routed_to cfg ?L ?M j (triples_of (heap s) (b # d # D)))"
  proof (intro allI impI)
    fix j assume j: "j < length Ls"
    have hok1: "heap_ok cfg s1 Ls1 St1 (b # d # D)" using A(2) by (simp add: state_ok_def)
    have "b \<notin> set (Ls1 ! j)" using heap_ok_nth(4)[OF hok1, of j] j A(3) by auto
    then have "\<forall>a\<in>set (Ls1 ! j). wheelPrimes (heap ?s2 ! a) = wheelPrimes (heap s1 ! a)"
      using R(2) by metis
    from triples_of_cong[OF this]
    have "mset (triples_of (heap ?s2) (Ls1 ! j))
            = mset (triples_of (heap s) (Ls ! j)) + mset (routed_to cfg ?L ?M j ?T)"
      using A(4) j by simp
    then show "mset (triples_of (heap s') (Ls' ! j))
                = mset (triples_of (heap s) (Ls ! j))
                  + mset (routed_to cfg ?L ?M j (triples_of (heap s) (b # d # D)))"
      using B(4) j A(3) unfolding U2 f2(1,2) T by (simp add: routed_to_append)
  qed
  have len: "length Ls' = length Ls" using A(3) B(3) by simp
  have fr: "frame s s' []"
    using frame_trans[OF frame_subset[OF fr02, of "[]"] B(5)] by simp
  show ?case using res' B(2) len acc fr by blast
qed

lemma unat_and_mask: "unat ((x::'a::len word) AND mask n) = unat x mod 2 ^ n"
proof -
  have "unat (x AND mask n) = unat (take_bit n x)" by (simp add: take_bit_eq_mask)
  also have "\<dots> = take_bit n (unat x)" by (simp add: unsigned_take_bit_eq)
  also have "\<dots> = unat x mod 2 ^ n" by (simp add: take_bit_nat_def)
  finally show ?thesis .
qed

lemma unat_step:
  fixes m p f c :: "'a::len word"
  assumes "unat m + unat p * unat f + unat c < 2 ^ LENGTH('a)"
  shows "unat (m + p * f + c) = unat m + unat p * unat f + unat c"
proof -
  have "unat p * unat f < 2 ^ LENGTH('a)" using assms by simp
  then have pf: "unat (p * f) = unat p * unat f"
    by (rule iffD1[OF unat_mult_lem])
  have "unat m + unat (p * f) < 2 ^ LENGTH('a)" using assms pf by simp
  then have mpf: "unat (m + p * f) = unat m + unat (p * f)"
    by (rule iffD1[OF unat_add_lem])
  have "unat (m + p * f) + unat c < 2 ^ LENGTH('a)" using assms pf mpf by simp
  then have "unat (m + p * f + c) = unat (m + p * f) + unat c"
    by (rule iffD1[OF unat_add_lem])
  then show ?thesis using pf mpf by simp
qed

lemma reroute_ok:
  fixes M L :: "'a::len word"
  assumes M: "M = mask (unat L)" and t: "triple_ok cfg L M n (p, m, w)"
  shows "fst (snd (reroute cfg L M (p, m, w))) = p"
    and "unat (fst (reroute cfg L M (p, m, w))) < n"
    and "triple_ok cfg L M n (snd (reroute cfg L M (p, m, w)))"
    and "unat (fst (reroute cfg L M (p, m, w))) = 0
           \<Longrightarrow> unat m < unat (fst (snd (snd (reroute cfg L M (p, m, w)))))"
proof -
  let ?f = "nextMultipleFactor (WHEEL cfg w)" and ?c = "correct (WHEEL cfg w)"
  let ?x = "m + p * ?f + ?c"
  let ?inc = "unat p * unat ?f + unat ?c"
  have mM: "unat m \<le> unat M" using t by (simp add: triple_ok_def word_le_nat_alt)
  have bp: "0 < ?inc" "unat M + ?inc < 2 ^ LENGTH('a)" "(unat M + ?inc) div 2 ^ unat L < n"
    using t by (simp_all add: triple_ok_def big_prime_def add.assoc)
  have ux: "unat ?x = unat m + ?inc"
    using unat_step[of m p ?f ?c] mM bp(2) by simp
  have r: "reroute cfg L M (p, m, w) = (drop_bit (unat L) ?x, (p, ?x AND M, nextWheelIndex (WHEEL cfg w)))"
    by (simp add: reroute_def Let_def)
  show "fst (snd (reroute cfg L M (p, m, w))) = p" by (simp add: r)
  have seg: "unat (drop_bit (unat L) ?x) = (unat m + ?inc) div 2 ^ unat L"
    by (simp add: unat_drop_bit_eq drop_bit_nat_def ux)
  have "(unat m + ?inc) div 2 ^ unat L \<le> (unat M + ?inc) div 2 ^ unat L"
    using mM by (intro div_le_mono) simp
  then show "unat (fst (reroute cfg L M (p, m, w))) < n"
    using bp(3) seg by (simp add: r)
  have "?x AND M \<le> M" by (rule word_and_le1)
  then show "triple_ok cfg L M n (snd (reroute cfg L M (p, m, w)))"
    using t by (simp add: r triple_ok_def)
  assume "unat (fst (reroute cfg L M (p, m, w))) = 0"
  then have "(unat m + ?inc) div 2 ^ unat L = 0" using seg by (simp add: r)
  then have lt: "unat m + ?inc < 2 ^ unat L" by (simp add: div_eq_0_iff)
  have "unat (?x AND M) = unat ?x mod 2 ^ unat L" by (simp add: M unat_and_mask)
  also have "\<dots> = unat m + ?inc" using lt ux by simp
  finally show "unat m < unat (fst (snd (snd (reroute cfg L M (p, m, w)))))"
    using bp(1) by (simp add: r)
qed

lemma measure_of_mset: "mset xs = mset ys \<Longrightarrow> measure_of M xs = measure_of M ys"
proof -
  assume "mset xs = mset ys"
  then have "mset (map (\<lambda>wp. Suc (unat M) - unat (fst (snd wp))) xs)
           = mset (map (\<lambda>wp. Suc (unat M) - unat (fst (snd wp))) ys)"
    by (metis mset_map)
  then show ?thesis unfolding measure_of_def by (metis sum_mset_sum_list)
qed

lemma measure_of_routed:
  fixes M L :: "'a::len word"
  assumes M: "M = mask (unat L)" and ok: "\<forall>t\<in>set ts. triple_ok cfg L M n t"
  shows "measure_of M (routed_to cfg L M 0 ts) + length ts \<le> measure_of M ts"
  using ok
proof (induction ts)
  case Nil
  then show ?case by (simp add: measure_of_def routed_to_Nil)
next
  case (Cons t ts)
  obtain p m w where t: "t = (p, m, w)" by (cases t) auto
  have tok: "triple_ok cfg L M n (p, m, w)" using Cons.prems t by simp
  have IH: "measure_of M (routed_to cfg L M 0 ts) + length ts \<le> measure_of M ts"
    using Cons by simp
  have mM: "unat m \<le> unat M" using tok by (simp add: triple_ok_def word_le_nat_alt)
  have one: "measure_of M (if unat (fst (reroute cfg L M t)) = 0 then [snd (reroute cfg L M t)] else []) + 1
               \<le> Suc (unat M) - unat m"
  proof (cases "unat (fst (reroute cfg L M t)) = 0")
    case True
    have "unat m < unat (fst (snd (snd (reroute cfg L M t))))"
      using reroute_ok(4)[OF M tok] True t by simp
    moreover have "unat (fst (snd (snd (reroute cfg L M t)))) \<le> unat M"
      using reroute_ok(3)[OF M tok] t by (simp add: triple_ok_def word_le_nat_alt)
    ultimately show ?thesis using True by (simp add: measure_of_def)
  next
    case False
    then show ?thesis using mM by (simp add: measure_of_def)
  qed
  have split: "measure_of M (xs @ ys) = measure_of M xs + measure_of M ys" for xs ys
    by (simp add: measure_of_def)
  have "measure_of M (t # ts) = (Suc (unat M) - unat m) + measure_of M ts"
    by (simp add: measure_of_def t)
  then show ?case
    using one IH by (simp add: routed_to_Cons split)
qed

lemma detach_ok:
  assumes ok: "heap_ok cfg s Ls St []" and n: "0 < length Ls"
  shows "heap_ok cfg (s\<lparr>lists_m := (lists_m s)[0 := None]\<rparr>) (Ls[0 := []]) St (Ls ! 0)"
proof -
  note H = heap_okD[OF ok]
  have len: "length (lists_m s) = length Ls" using H(1) by (rule list_all2_lengthD)
  have p1: "list_all2 (path (heap s)) ((lists_m s)[0 := None]) (Ls[0 := []])"
    unfolding list_all2_conv_all_nth
  proof (intro conjI allI impI)
    show "length ((lists_m s)[0 := None]) = length (Ls[0 := []])" using len by simp
    fix j assume "j < length ((lists_m s)[0 := None])"
    then have j: "j < length Ls" using len by simp
    show "path (heap s) ((lists_m s)[0 := None] ! j) (Ls[0 := []] ! j)"
      using heap_ok_nth(1)[OF ok j] j len by (cases "j = 0") simp_all
  qed
  have ms: "mset (concat (Ls[0 := []]) @ St @ Ls ! 0) = mset (concat Ls @ St @ [])"
    using concat_update_nil_mset[OF n] by (simp add: union_commute union_assoc)
  have d: "distinct (concat (Ls[0 := []]) @ St @ Ls ! 0)"
    using H(3) mset_eq_imp_distinct_iff[OF ms] by blast
  have c: "set (concat (Ls[0 := []]) @ St @ Ls ! 0) = {..<length (heap s)}"
    using H(4) mset_eq_setD[OF ms] by simp
  show ?thesis
    by (rule heap_okI) (use p1 H(2,5,6,7,8) d c in simp_all)
qed

lemma crossOff_pass_ok:
  assumes ok: "state_ok cfg s Ls St []" and n: "0 < length Ls"
    and pre: "\<forall>t\<in>set (triples_of (heap s) (Ls ! 0)).
           unat (fst (reroute cfg (log2SieveSize_m s) (moduloSieveSize_m s) t)) < length Ls
           \<and> unat (fst (snd t)) < length sieve"
  shows "\<exists>s' Ls' St'. crossOff_pass cfg (s, sieve)
             = Some (Inr (s', foldl (clear_multiple cfg) sieve (triples_of (heap s) (Ls ! 0)))) \<and>
           state_ok cfg s' Ls' St' [] \<and> length Ls' = length Ls \<and>
           (\<forall>j<length Ls. mset (triples_of (heap s') (Ls' ! j))
                = (if j = 0 then {#} else mset (triples_of (heap s) (Ls ! j)))
                  + mset (routed_to cfg (log2SieveSize_m s) (moduloSieveSize_m s) j
                            (triples_of (heap s) (Ls ! 0)))) \<and>
           frame s s' []"
proof -
  let ?L = "log2SieveSize_m s" and ?M = "moduloSieveSize_m s"
  let ?s0 = "s\<lparr>lists_m := (lists_m s)[0 := None]\<rparr>"
  let ?D = "Ls ! 0"
  have hok: "heap_ok cfg s Ls St []" and fl: "filled cfg (heap s) Ls"
    using ok by (simp_all add: state_ok_def)
  have ok0: "heap_ok cfg ?s0 (Ls[0 := []]) St ?D" by (rule detach_ok[OF hok n])
  have k0: "unat (0::'a word) < length (Ls[0 := []])" using n by simp
  let ?a = "pushed_addr ?s0"
  obtain s1 St1 where P:
    "pushBucket cfg 0 ?s0 = Inr s1"
    "heap_ok cfg s1 ((Ls[0 := []])[unat (0::'a word) := ?a # (Ls[0 := []]) ! unat (0::'a word)]) St1 ?D"
    "wheelPrimes (heap s1 ! ?a) = []"
    "\<forall>b<length (heap ?s0). wheelPrimes (heap s1 ! b) = wheelPrimes (heap ?s0 ! b)"
    "\<forall>b<length (heap ?s0). b \<noteq> ?a \<longrightarrow> heap s1 ! b = heap ?s0 ! b"
    "length (heap ?s0) \<le> length (heap s1)"
    "log2SieveSize_m s1 = log2SieveSize_m ?s0" "moduloSieveSize_m s1 = moduloSieveSize_m ?s0"
    "length (lists_m s1) = length (lists_m ?s0)"
    by (rule pushBucket_ok[OF ok0 k0])
  let ?Ls1 = "Ls[0 := [?a]]"
  have Ls1: "(Ls[0 := []])[unat (0::'a word) := ?a # (Ls[0 := []]) ! unat (0::'a word)] = ?Ls1"
    using n by simp
  have hok1: "heap_ok cfg s1 ?Ls1 St1 ?D" using P(2) unfolding Ls1 .
  note H1 = heap_okD[OF hok1]
  have lt_old: "\<forall>a\<in>set (concat Ls). a < length (heap s)"
    using heap_okD(4)[OF hok] by auto
  have lt_j: "\<forall>a\<in>set (Ls ! j). a < length (heap s)" if "j < length Ls" for j
    using lt_old nth_subset_concat[OF that] by blast
  have wsame: "wheelPrimes (heap s1 ! b) = wheelPrimes (heap s ! b)" if "b < length (heap s)" for b
    using P(4) that by simp
  have BS: "0 < BUCKETSIZE cfg" using fl by (simp add: filled_def)
  have fl1: "filled cfg (heap s1) ?Ls1"
    unfolding filled_def
  proof (intro conjI allI impI ballI)
    show "0 < BUCKETSIZE cfg" by (rule BS)
    fix j assume "j < length ?Ls1"
    then have j: "j < length Ls" by simp
    have oldj: "Ls ! j \<noteq> []" "length (wheelPrimes (heap s ! hd (Ls ! j))) < BUCKETSIZE cfg"
        "\<forall>a\<in>set (tl (Ls ! j)). length (wheelPrimes (heap s ! a)) = BUCKETSIZE cfg"
      using fl j by (simp_all add: filled_def)
    show "?Ls1 ! j \<noteq> []" using oldj(1) j by (cases "j = 0") simp_all
    show "length (wheelPrimes (heap s1 ! hd (?Ls1 ! j))) < BUCKETSIZE cfg"
    proof (cases "j = 0")
      case True
      then show ?thesis using P(3) BS n by simp
    next
      case False
      have "hd (Ls ! j) \<in> set (Ls ! j)" using oldj(1) by simp
      then have "hd (Ls ! j) < length (heap s)" using lt_j[OF j] by blast
      then show ?thesis using wsame oldj(2) False by simp
    qed
    fix a assume a: "a \<in> set (tl (?Ls1 ! j))"
    show "length (wheelPrimes (heap s1 ! a)) = BUCKETSIZE cfg"
    proof (cases "j = 0")
      case True
      then show ?thesis using a n by simp
    next
      case False
      then have atl: "a \<in> set (tl (Ls ! j))" using a by simp
      then have "a < length (heap s)" using lt_j[OF j] in_set_tlD'[OF atl] by blast
      then show ?thesis using wsame oldj(3) atl by simp
    qed
  qed
  have so1: "state_ok cfg s1 ?Ls1 St1 ?D" using hok1 fl1 by (simp add: state_ok_def)
  have neD: "?D \<noteq> []" using fl n by (simp add: filled_def)
  then obtain b D' where D: "?D = b # D'" by (cases ?D) auto
  have pD: "path (heap s) (lists_m s ! 0) ?D" by (rule heap_ok_nth(1)[OF hok n])
  have ptr: "lists_m s ! 0 = Some b" using pD unfolding D by simp
  have a_in: "?a \<in> set (concat ?Ls1)"
    using nth_subset_concat[of 0 ?Ls1] n by simp
  have a_D: "?a \<notin> set ?D" using H1(3) a_in by auto
  have sameD: "\<forall>c\<in>set ?D. heap s1 ! c = heap s ! c"
  proof
    fix c assume c: "c \<in> set ?D"
    then have "c \<noteq> ?a" using a_D by auto
    moreover have "c < length (heap s)" using lt_j[OF n] c by blast
    ultimately show "heap s1 ! c = heap s ! c" using P(5) by simp
  qed
  have pD1: "path (heap s1) (Some b) (b # D')"
  proof -
    have "path (heap s1) (lists_m s ! 0) ?D"
      by (rule path_cong[OF pD]) (use P(6) sameD in simp_all)
    then show ?thesis using ptr D by simp
  qed
  have T1: "triples_of (heap s1) ?D = triples_of (heap s) ?D"
    by (rule triples_of_cong) (use sameD in simp)
  have f1: "log2SieveSize_m s1 = ?L" "moduloSieveSize_m s1 = ?M" using P(7,8) by simp_all
  have pre1: "\<forall>t\<in>set (triples_of (heap s1) (b # D')).
           unat (fst (reroute cfg (log2SieveSize_m s1) (moduloSieveSize_m s1) t)) < length ?Ls1
           \<and> unat (fst (snd t)) < length sieve"
    using pre T1 f1 unfolding D by simp
  obtain s' Ls' St' where C:
    "crossOff_chain cfg (Some b) (s1, sieve)
       = Some (Inr (s', foldl (clear_multiple cfg) sieve (triples_of (heap s1) (b # D'))))"
    "state_ok cfg s' Ls' St' []" "length Ls' = length ?Ls1"
    "\<forall>j<length ?Ls1. mset (triples_of (heap s') (Ls' ! j))
        = mset (triples_of (heap s1) (?Ls1 ! j))
          + mset (routed_to cfg (log2SieveSize_m s1) (moduloSieveSize_m s1) j
                    (triples_of (heap s1) (b # D')))"
    "frame s1 s' []"
    using crossOff_chain_ok[OF so1[unfolded D] pD1 pre1] by blast
  have res: "crossOff_pass cfg (s, sieve)
             = Some (Inr (s', foldl (clear_multiple cfg) sieve (triples_of (heap s) ?D)))"
    using P(1) C(1) ptr T1 unfolding D by (simp add: crossOff_pass_def)
  have acc: "\<forall>j<length Ls. mset (triples_of (heap s') (Ls' ! j))
                = (if j = 0 then {#} else mset (triples_of (heap s) (Ls ! j)))
                  + mset (routed_to cfg ?L ?M j (triples_of (heap s) ?D))"
  proof (intro allI impI)
    fix j assume j: "j < length Ls"
    have "mset (triples_of (heap s1) (?Ls1 ! j))
            = (if j = 0 then {#} else mset (triples_of (heap s) (Ls ! j)))"
    proof (cases "j = 0")
      case True
      then show ?thesis using P(3) n by (simp add: triples_of_def)
    next
      case False
      have "\<forall>a\<in>set (Ls ! j). wheelPrimes (heap s1 ! a) = wheelPrimes (heap s ! a)"
        using lt_j[OF j] wsame by blast
      from triples_of_cong[OF this] show ?thesis using False by simp
    qed
    then show "mset (triples_of (heap s') (Ls' ! j))
                = (if j = 0 then {#} else mset (triples_of (heap s) (Ls ! j)))
                  + mset (routed_to cfg ?L ?M j (triples_of (heap s) ?D))"
      using C(4) j T1 f1 unfolding D by simp
  qed
  have fr: "frame s s' []"
  proof -
    have "frame s s1 []" using P(6,7,8,9) by (simp add: frame_def)
    then show ?thesis using C(5) by (rule frame_trans)
  qed
  have len: "length Ls' = length Ls" using C(3) by simp
  show ?thesis using res C(2) len acc fr by blast
qed

lemma filledD:
  assumes "filled cfg h Ls" and "k < length Ls"
  shows "Ls ! k \<noteq> []" and "length (wheelPrimes (h ! hd (Ls ! k))) < BUCKETSIZE cfg"
    and "\<forall>a\<in>set (tl (Ls ! k)). length (wheelPrimes (h ! a)) = BUCKETSIZE cfg"
    and "0 < BUCKETSIZE cfg"
  using assms unfolding filled_def by blast+

lemma crossOff_cond_ok:
  assumes ok: "state_ok cfg s Ls St []" and n: "0 < length Ls"
  shows "crossOff_cond s = Inr (triples_of (heap s) (Ls ! 0) \<noteq> [])"
proof -
  have hok: "heap_ok cfg s Ls St []" and fl: "filled cfg (heap s) Ls"
    using ok by (simp_all add: state_ok_def)
  have fl0: "Ls ! 0 \<noteq> []" "\<forall>a\<in>set (tl (Ls ! 0)). length (wheelPrimes (heap s ! a)) = BUCKETSIZE cfg"
    and BS: "0 < BUCKETSIZE cfg"
    using filledD[OF fl n] by blast+
  obtain l rest where L0: "Ls ! 0 = l # rest" using fl0(1) by (cases "Ls ! 0") auto
  have p: "path (heap s) (lists_m s ! 0) (l # rest)"
    using heap_ok_nth(1)[OF hok n] L0 by simp
  have len: "length (lists_m s) = length Ls" by (rule heap_ok_nth(7)[OF hok n])
  then obtain x xs where ls: "lists_m s = x # xs" using n by (cases "lists_m s") auto
  have x: "x = Some l" and l_lt: "l < length (heap s)" and pr: "path (heap s) (next_m (heap s ! l)) rest"
    using p ls by simp_all
  have hn: "Bucket_hasNext (heap s ! l) \<longleftrightarrow> rest \<noteq> []"
    using pr by (cases rest) (simp_all add: Bucket_hasNext_def)
  have c: "crossOff_cond s = Inr (rest \<noteq> [] \<or> wheelPrimes (heap s ! l) \<noteq> [])"
    using ls x l_lt hn by (simp add: crossOff_cond_def Bucket_empty_def)
  have "triples_of (heap s) (l # rest) \<noteq> [] \<longleftrightarrow> (rest \<noteq> [] \<or> wheelPrimes (heap s ! l) \<noteq> [])"
  proof (cases rest)
    case Nil
    then show ?thesis by (simp add: triples_of_def)
  next
    case (Cons r rs)
    then have "length (wheelPrimes (heap s ! r)) = BUCKETSIZE cfg" using fl0(2) L0 by simp
    then have "wheelPrimes (heap s ! r) \<noteq> []" using BS by auto
    then show ?thesis using Cons by (simp add: triples_of_def)
  qed
  then show ?thesis using c L0 by simp
qed

lemma crossOff_while_ok:
  fixes s :: "'a::len EratBig"
  assumes "state_ok cfg s Ls St []" and "0 < length Ls"
    and "moduloSieveSize_m s = mask (unat (log2SieveSize_m s))"
    and "unat (moduloSieveSize_m s) < length sieve"
    and "\<forall>j<length Ls. \<forall>t\<in>set (triples_of (heap s) (Ls ! j)).
           triple_ok cfg (log2SieveSize_m s) (moduloSieveSize_m s) (length Ls) t"
  shows "\<exists>s' Ls' St' sieve'. crossOff_while cfg (s, sieve) = Some (Inr (s', sieve')) \<and>
           state_ok cfg s' Ls' St' [] \<and> length Ls' = length Ls \<and>
           triples_of (heap s') (Ls' ! 0) = [] \<and> length sieve' = length sieve \<and>
           frame s s' [] \<and>
           (\<forall>j<length Ls. \<forall>t\<in>set (triples_of (heap s') (Ls' ! j)).
              triple_ok cfg (log2SieveSize_m s) (moduloSieveSize_m s) (length Ls) t)"
  using assms
proof (induction "measure_of (moduloSieveSize_m s) (triples_of (heap s) (Ls ! 0))"
        arbitrary: s Ls St sieve rule: less_induct)
  case less
  let ?L = "log2SieveSize_m s" and ?M = "moduloSieveSize_m s"
  let ?T = "triples_of (heap s) (Ls ! 0)"
  note ok = less.prems(1) and n = less.prems(2) and M = less.prems(3) and sv = less.prems(4)
    and tok = less.prems(5)
  have cond: "crossOff_cond s = Inr (?T \<noteq> [])" by (rule crossOff_cond_ok[OF ok n])
  show ?case
  proof (cases "?T = []")
    case True
    have "crossOff_while cfg (s, sieve) = Some (Inr (s, sieve))"
      using cond True by (subst crossOff_while.simps) simp
    then show ?thesis using ok True tok frame_refl[of s "[]"] by blast
  next
    case False
    have tok0: "\<forall>t\<in>set ?T. triple_ok cfg ?L ?M (length Ls) t" using tok n by blast
    have pre: "\<forall>t\<in>set ?T. unat (fst (reroute cfg ?L ?M t)) < length Ls \<and> unat (fst (snd t)) < length sieve"
    proof
      fix t assume t: "t \<in> set ?T"
      obtain p m w where pmw: "t = (p, m, w)" by (cases t) auto
      have tk: "triple_ok cfg ?L ?M (length Ls) (p, m, w)" using tok0 t pmw by blast
      have "unat m \<le> unat ?M" using tk by (simp add: triple_ok_def word_le_nat_alt)
      then show "unat (fst (reroute cfg ?L ?M t)) < length Ls \<and> unat (fst (snd t)) < length sieve"
        using reroute_ok(2)[OF M tk] sv pmw by simp
    qed
    obtain s1 Ls1 St1 where P:
      "crossOff_pass cfg (s, sieve) = Some (Inr (s1, foldl (clear_multiple cfg) sieve ?T))"
      "state_ok cfg s1 Ls1 St1 []" "length Ls1 = length Ls"
      "\<forall>j<length Ls. mset (triples_of (heap s1) (Ls1 ! j))
          = (if j = 0 then {#} else mset (triples_of (heap s) (Ls ! j)))
            + mset (routed_to cfg ?L ?M j ?T)"
      "frame s s1 []"
      using crossOff_pass_ok[OF ok n pre] by blast
    let ?sv1 = "foldl (clear_multiple cfg) sieve ?T"
    have f1: "log2SieveSize_m s1 = ?L" "moduloSieveSize_m s1 = ?M"
      using P(5) by (simp_all add: frame_def)
    have m0: "mset (triples_of (heap s1) (Ls1 ! 0)) = mset (routed_to cfg ?L ?M 0 ?T)"
      using P(4) n by simp
    have e1: "measure_of ?M (triples_of (heap s1) (Ls1 ! 0)) = measure_of ?M (routed_to cfg ?L ?M 0 ?T)"
      by (rule measure_of_mset[OF m0])
    have e2: "measure_of ?M (routed_to cfg ?L ?M 0 ?T) + length ?T \<le> measure_of ?M ?T"
      by (rule measure_of_routed[OF M tok0])
    have e3: "1 \<le> length ?T" using False by (cases ?T) simp_all
    have dec: "measure_of (moduloSieveSize_m s1) (triples_of (heap s1) (Ls1 ! 0))
                            < measure_of ?M ?T"
      unfolding f1 using e1 e2 e3 by linarith
    have routed_ok: "triple_ok cfg ?L ?M (length Ls) u" if "u \<in> set (routed_to cfg ?L ?M j ?T)" for u j
    proof -
      from that obtain t where t: "t \<in> set ?T" "u = snd (reroute cfg ?L ?M t)"
        by (auto simp: routed_to_def)
      obtain p m w where pmw: "t = (p, m, w)" by (cases t) auto
      have "triple_ok cfg ?L ?M (length Ls) (p, m, w)" using tok0 t(1) pmw by blast
      from reroute_ok(3)[OF M this] show ?thesis using t(2) pmw by simp
    qed
    have tok1: "\<forall>j<length Ls1. \<forall>t\<in>set (triples_of (heap s1) (Ls1 ! j)).
           triple_ok cfg (log2SieveSize_m s1) (moduloSieveSize_m s1) (length Ls1) t"
    proof (intro allI impI ballI)
      fix j t assume j: "j < length Ls1" and t: "t \<in> set (triples_of (heap s1) (Ls1 ! j))"
      have jj: "j < length Ls" using j P(3) by simp
      have "t \<in># mset (triples_of (heap s1) (Ls1 ! j))" using t by simp
      then have "t \<in># (if j = 0 then {#} else mset (triples_of (heap s) (Ls ! j)))
                      + mset (routed_to cfg ?L ?M j ?T)"
        using P(4) jj by simp
      then have "t \<in> set (triples_of (heap s) (Ls ! j)) \<or> t \<in> set (routed_to cfg ?L ?M j ?T)"
        by (cases "j = 0") auto
      then have "triple_ok cfg ?L ?M (length Ls) t"
        using tok jj routed_ok by blast
      then show "triple_ok cfg (log2SieveSize_m s1) (moduloSieveSize_m s1) (length Ls1) t"
        unfolding f1 P(3) .
    qed
    have n1: "0 < length Ls1" using n P(3) by simp
    have M1: "moduloSieveSize_m s1 = mask (unat (log2SieveSize_m s1))" using M f1 by simp
    have sv1: "unat (moduloSieveSize_m s1) < length ?sv1" using sv f1 by (simp add: length_foldl_clear)
    obtain s' Ls' St' sieve' where W:
      "crossOff_while cfg (s1, ?sv1) = Some (Inr (s', sieve'))"
      "state_ok cfg s' Ls' St' []" "length Ls' = length Ls1"
      "triples_of (heap s') (Ls' ! 0) = []" "length sieve' = length ?sv1"
      "frame s1 s' []"
      "\<forall>j<length Ls1. \<forall>t\<in>set (triples_of (heap s') (Ls' ! j)).
              triple_ok cfg (log2SieveSize_m s1) (moduloSieveSize_m s1) (length Ls1) t"
      using less.hyps[OF dec P(2) n1 M1 sv1 tok1] by blast
    have res: "crossOff_while cfg (s, sieve) = Some (Inr (s', sieve'))"
      using cond False P(1) W(1) by (subst crossOff_while.simps) simp
    have len: "length Ls' = length Ls" using W(3) P(3) by simp
    have lsv: "length sieve' = length sieve" using W(5) by (simp add: length_foldl_clear)
    have fr: "frame s s' []" by (rule frame_trans[OF P(5) W(6)])
    have tok': "\<forall>j<length Ls. \<forall>t\<in>set (triples_of (heap s') (Ls' ! j)).
              triple_ok cfg ?L ?M (length Ls) t"
      using W(7) f1 P(3) by simp
    show ?thesis using res W(2) len W(4) lsv fr tok' by blast
  qed
qed

lemma heap_ok_chains:
  assumes ok: "heap_ok cfg s Ls St D"
  shows "Ls = all_lists s" and "St = stock_buckets s"
    and "\<forall>k<length Ls. list_buckets s k = Ls ! k"
proof -
  note H = heap_okD[OF ok]
  have len: "length (lists_m s) = length Ls" using H(1) by (rule list_all2_lengthD)
  have lb: "list_buckets s k = Ls ! k" if k: "k < length Ls" for k
  proof -
    note F = heap_ok_nth[OF ok k]
    have "length (Ls ! k) \<le> length (heap s)"
      by (rule distinct_length_le[OF F(2) F(6)])
    then show ?thesis unfolding list_buckets_def by (rule chain_path[OF F(1)])
  qed
  then show "\<forall>k<length Ls. list_buckets s k = Ls ! k" by blast
  show "Ls = all_lists s"
    by (rule nth_equalityI) (simp_all add: all_lists_def len lb)
  have dSt: "distinct St" using H(3) by simp
  have "\<forall>a\<in>set St. a < length (heap s)" using path_bound[OF H(2)] by blast
  then have "length St \<le> length (heap s)" by (rule distinct_length_le[OF dSt])
  then show "St = stock_buckets s"
    unfolding stock_buckets_def using chain_path[OF H(2)] by simp
qed

lemma EratBig_invI:
  assumes ok: "state_ok cfg s Ls St []" and ne: "0 < length Ls"
    and M: "moduloSieveSize_m s = mask (unat (log2SieveSize_m s))"
    and b: "\<forall>k<length Ls. \<forall>t\<in>set (triples_of (heap s) (Ls ! k)). fst (snd t) \<le> moduloSieveSize_m s"
  shows "EratBig_inv cfg s"
proof -
  have hok: "heap_ok cfg s Ls St []" using ok by (simp add: state_ok_def)
  note C = heap_ok_chains[OF hok]
  have len: "length (lists_m s) = length Ls" using heap_okD(1)[OF hok] by (rule list_all2_lengthD)
  have "state_ok cfg s (all_lists s) (stock_buckets s) []" using ok C(1,2) by simp
  moreover have "lists_m s \<noteq> []" using ne len by auto
  moreover have "\<forall>k<length (lists_m s). \<forall>t\<in>set (list_triples s k). fst (snd t) \<le> moduloSieveSize_m s"
    using b C(3) len by (simp add: list_triples_def)
  ultimately show ?thesis using M by (simp add: EratBig_inv_def)
qed

lemma EratBig_invD:
  assumes "EratBig_inv cfg s"
  shows "state_ok cfg s (all_lists s) (stock_buckets s) []"
    and "0 < length (all_lists s)" and "length (all_lists s) = length (lists_m s)"
    and "moduloSieveSize_m s = mask (unat (log2SieveSize_m s))"
    and "\<forall>k<length (all_lists s). \<forall>t\<in>set (triples_of (heap s) (all_lists s ! k)).
           fst (snd t) \<le> moduloSieveSize_m s"
    and "\<forall>k<length (lists_m s). all_lists s ! k = list_buckets s k"
proof -
  show "state_ok cfg s (all_lists s) (stock_buckets s) []"
    and "moduloSieveSize_m s = mask (unat (log2SieveSize_m s))"
    using assms unfolding EratBig_inv_def by blast+
  have ne: "lists_m s \<noteq> []" using assms unfolding EratBig_inv_def by blast
  show len: "length (all_lists s) = length (lists_m s)" by (simp add: all_lists_def)
  show "0 < length (all_lists s)" using ne len by simp
  show nth: "\<forall>k<length (lists_m s). all_lists s ! k = list_buckets s k"
    by (simp add: all_lists_def)
  have "\<forall>k<length (lists_m s). \<forall>t\<in>set (list_triples s k). fst (snd t) \<le> moduloSieveSize_m s"
    using assms unfolding EratBig_inv_def by blast
  then show "\<forall>k<length (all_lists s). \<forall>t\<in>set (triples_of (heap s) (all_lists s ! k)).
           fst (snd t) \<le> moduloSieveSize_m s"
    unfolding len list_triples_def using nth by simp
qed

lemma state_ok_list_triples:
  assumes "state_ok cfg s Ls St D" and "k < length Ls"
  shows "list_triples s k = triples_of (heap s) (Ls ! k)" and "list_buckets s k = Ls ! k"
  using heap_ok_chains(3)[of cfg s Ls St D] assms by (simp_all add: state_ok_def list_triples_def)

lemma ceiling_div_nat:
  assumes d: "0 < d"
  shows "nat \<lceil>real x / real d\<rceil> = (d - 1 + x) div d"
proof -
  let ?k = "(- int x) div int d"
  let ?r = "(- int x) mod int d"
  have r: "0 \<le> ?r" "?r < int d" using d by simp_all
  have dec: "- int x = int d * ?k + ?r" by simp
  have e: "int d - 1 + int x = int d * (- ?k) + (int d - 1 - ?r)"
    using dec by (simp add: algebra_simps)
  have "(int d - 1 + int x) div int d = - ?k"
    by (rule int_div_pos_eq[OF e]) (use r in simp_all)
  moreover have "\<lceil>real x / real d\<rceil> = - ?k"
    using ceiling_divide_eq_div[of "int x" "int d"] by simp
  moreover have "int ((d - 1 + x) div d) = (int d - 1 + int x) div int d"
  proof -
    have "int (d - 1 + x) = int d - 1 + int x" using d by (simp add: of_nat_diff)
    then show ?thesis by (simp only: zdiv_int)
  qed
  ultimately show ?thesis by simp
qed

lemma nat_and_pred_zero:
  "0 < n \<Longrightarrow> n AND (n - 1) = 0 \<Longrightarrow> \<exists>k. n = 2 ^ k" for n :: nat
proof (induction n rule: less_induct)
  case (less n)
  show ?case
  proof (cases "even n")
    case True
    then obtain m where m: "n = 2 * m" by (elim evenE)
    then have mpos: "0 < m" using less.prems(1) by simp
    have d1: "n div 2 = m" using m by simp
    have d2: "(n - 1) div 2 = m - 1" using m mpos by (cases m) simp_all
    have "n AND (n - 1) = 2 * (m AND (m - 1))"
      using and_nat_rec[of n "n - 1"] True d1 d2 by simp
    then have "m AND (m - 1) = 0" using less.prems(2) by simp
    moreover have "m < n" using m mpos by simp
    ultimately obtain k where "m = 2 ^ k" using less.IH mpos by blast
    then have "n = 2 ^ Suc k" using m by simp
    then show ?thesis by blast
  next
    case False
    then obtain m where m: "n = 2 * m + 1" by (elim oddE)
    have d1: "n div 2 = m" using m by simp
    have d2: "(n - 1) div 2 = m" using m by simp
    have ev: "even (n - 1)" using m by simp
    have "n AND (n - 1) = 2 * (m AND m)"
      using and_nat_rec[of n "n - 1"] ev d1 d2 by simp
    then have "m = 0" using less.prems(2) by simp
    then have "n = 2 ^ 0" using m by simp
    then show ?thesis by blast
  qed
qed

lemma unat_exp: "k < LENGTH('a) \<Longrightarrow> unat ((2::'a::len word) ^ k) = 2 ^ k"
proof -
  assume k: "k < LENGTH('a)"
  have "unat ((2::'a word) ^ k) = unat (of_nat (2 ^ k) :: 'a word)" by simp
  also have "\<dots> = 2 ^ k mod 2 ^ LENGTH('a)" by (simp only: unat_of_nat)
  also have "\<dots> = 2 ^ k" using k by simp
  finally show ?thesis .
qed

lemma isPowerOf2_iff:
  "isPowerOf2 (x::'a::len word) \<longleftrightarrow> (\<exists>k<LENGTH('a). x = 2 ^ k)"
proof
  assume p: "isPowerOf2 x"
  then have x0: "x \<noteq> 0" and a0: "x AND (x - 1) = 0" by (simp_all add: isPowerOf2_def)
  have pos: "0 < unat x" using x0 by (simp add: unat_gt_0)
  have "unat (x AND (x - 1)) = unat x AND unat (x - 1)" by (simp add: unsigned_and_eq)
  then have "unat x AND (unat x - 1) = 0" using a0 unat_minus_one[OF x0] by simp
  then obtain k where k: "unat x = 2 ^ k" using nat_and_pred_zero[OF pos] by blast
  have "unat x < 2 ^ LENGTH('a)" by simp
  then have kl: "k < LENGTH('a)" using k by simp
  have "x = of_nat (unat x)" by simp
  also have "\<dots> = 2 ^ k" unfolding k by simp
  finally show "\<exists>k<LENGTH('a). x = 2 ^ k" using kl by blast
next
  assume "\<exists>k<LENGTH('a). x = 2 ^ k"
  then obtain k where kl: "k < LENGTH('a)" and x: "x = 2 ^ k" by blast
  have ux: "unat x = 2 ^ k" using unat_exp[OF kl] x by simp
  then have "unat x \<noteq> 0" by simp
  then have x0: "x \<noteq> 0" by (simp add: unat_eq_0)
  have "unat (x AND (x - 1)) = unat x AND unat (x - 1)" by (simp add: unsigned_and_eq)
  also have "\<dots> = 2 ^ k AND (2 ^ k - 1)" using ux unat_minus_one[OF x0] by simp
  also have "\<dots> = take_bit k ((2::nat) ^ k)"
    by (simp add: take_bit_eq_mask mask_eq_exp_minus_1)
  also have "\<dots> = 0" by (simp add: take_bit_nat_def)
  finally have "x AND (x - 1) = 0" by (simp add: unat_eq_0)
  then show "isPowerOf2 x" using x0 by (simp add: isPowerOf2_def)
qed

lemma ilog2_nat_exp: "ilog2_nat (2 ^ k) = k"
proof (induction k)
  case 0
  then show ?case by (subst ilog2_nat.simps) simp
next
  case (Suc k)
  have "\<not> (2::nat) ^ Suc k < 2" by simp
  then show ?case using Suc by (subst ilog2_nat.simps) simp
qed

lemma ilog2_exp:
  assumes k: "k < LENGTH('a)"
  shows "unat (ilog2 ((2::'a::len word) ^ k)) = k"
proof -
  have "n < 2 ^ n" for n :: nat
  proof (induction n)
    case 0
    show ?case by simp
  next
    case (Suc n)
    then have "Suc n < 2 ^ n + 2 ^ n" by arith
    then show ?case by simp
  qed
  then have "k < 2 ^ LENGTH('a)" using k less_trans by blast
  then show ?thesis
    by (simp add: ilog2_def unat_exp[OF k] ilog2_nat_exp unat_of_nat)
qed

lemma members_mask:
  assumes "isPowerOf2 (getSieveSize soe)"
  shows "moduloSieveSize_m (EratBig_members soe) = mask (unat (log2SieveSize_m (EratBig_members soe)))"
proof -
  obtain k where kl: "k < LENGTH('a)" and x: "getSieveSize soe = 2 ^ k"
    using assms isPowerOf2_iff by blast
  have L: "unat (log2SieveSize_m (EratBig_members soe)) = k"
    using ilog2_exp[OF kl] by (simp add: EratBig_members_def x)
  have M: "moduloSieveSize_m (EratBig_members soe) = 2 ^ k - 1"
    by (simp add: EratBig_members_def x)
  show ?thesis unfolding L M by (rule mask_eq_exp_minus_1[symmetric])
qed

lemma listsSize_formula:
  fixes soe :: "'a::len SieveOfEratosthenes"
  assumes k: "k < LENGTH('a)" and S: "getSieveSize soe = 2 ^ k"
    and thirty: "30 < (2::nat) ^ LENGTH('a)"
    and fit: "2 ^ k + (unat (getSqrtStop soe) div 30 * unat (getMaxFactor cfg) + unat (getMaxFactor cfg))
                < (2::nat) ^ LENGTH('a)"
  shows "unat (listsSize cfg soe (ilog2 (getSieveSize soe)))
           = (2 ^ k - 1 + (unat (getSqrtStop soe) div 30 * unat (getMaxFactor cfg) + unat (getMaxFactor cfg)))
               div 2 ^ k + 1"
proof -
  let ?F = "getMaxFactor cfg"
  let ?msp = "getSqrtStop soe div NUMBERS_PER_BYTE"
  let ?mnm = "unat (getSqrtStop soe) div 30 * unat ?F + unat ?F"
  have "(30::'a word) = of_nat 30" by simp
  then have "unat (30::'a word) = 30 mod 2 ^ LENGTH('a)" by (simp only: unat_of_nat)
  then have u30: "unat (NUMBERS_PER_BYTE :: 'a word) = 30"
    using thirty by (simp add: NUMBERS_PER_BYTE_def)
  have msp: "unat ?msp = unat (getSqrtStop soe) div 30"
    by (simp add: unat_div u30)
  have step: "unat (0 + ?msp * ?F + ?F) = unat (0::'a word) + unat ?msp * unat ?F + unat ?F"
    by (rule unat_step) (use fit msp in simp)
  then have mnm: "unat (?msp * ?F + ?F) = ?mnm" using msp by simp
  have uS: "unat (getSieveSize soe) = 2 ^ k" using unat_exp[OF k] S by simp
  then have "unat (getSieveSize soe) \<noteq> 0" by simp
  then have ne: "getSieveSize soe \<noteq> 0" by (simp add: unat_eq_0)
  have S1: "unat (getSieveSize soe - 1) = 2 ^ k - 1"
    using unat_minus_one[OF ne] uS by simp
  have "unat (getSieveSize soe - 1) + unat (?msp * ?F + ?F) < 2 ^ LENGTH('a)"
    using fit S1 mnm by simp
  then have mmi: "unat (getSieveSize soe - 1 + (?msp * ?F + ?F)) = 2 ^ k - 1 + ?mnm"
    using S1 mnm by (simp add: iffD1[OF unat_add_lem])
  have seg: "unat (drop_bit k (getSieveSize soe - 1 + (?msp * ?F + ?F))) = (2 ^ k - 1 + ?mnm) div 2 ^ k"
    by (simp add: unat_drop_bit_eq drop_bit_nat_def mmi)
  define P where "P = (2::nat) ^ k"
  define Q where "Q = ?mnm"
  have "(P - 1 + Q) div P \<le> P - 1 + Q" by (rule div_le_dividend)
  moreover have "1 \<le> P" by (simp add: P_def)
  moreover have "P + Q < 2 ^ LENGTH('a)" using fit by (simp add: P_def Q_def)
  ultimately have "(P - 1 + Q) div P + 1 < 2 ^ LENGTH('a)" by linarith
  then have "unat (drop_bit k (getSieveSize soe - 1 + (?msp * ?F + ?F))) + unat (1::'a word) < 2 ^ LENGTH('a)"
    unfolding seg P_def Q_def by simp
  then have "unat (drop_bit k (getSieveSize soe - 1 + (?msp * ?F + ?F)) + 1)
               = (2 ^ k - 1 + ?mnm) div 2 ^ k + 1"
    using seg by (simp add: iffD1[OF unat_add_lem])
  moreover have "unat (ilog2 (getSieveSize soe)) = k" using ilog2_exp[OF k] S by simp
  ultimately show ?thesis by (simp add: listsSize_def Let_def)
qed

text \<open>
  C5. The loop of \<open>crossOff(Bucket&, sieve)\<close>, which takes two triples per iteration and
  the odd last one after the loop, does what the loop that takes the triples one at a
  time in order does: whenever one of them returns a state and a sieve, the other returns
  the same state and the same sieve, so the sieve array, the lists and the stock agree;
  and when one of them runs into undefined behaviour, so does the other.
\<close>

theorem crossOff_unrolled_is_naive:
  "(crossOff_loop cfg wps (s, sieve) = Inr r) = (crossOff_naive cfg wps (s, sieve) = Inr r)"
  by (rule crossOff_loop_naive)

theorem crossOff_unrolled_is_naive_witness:
  "crossOff_loop cfg0 [(1, 1, 0), (2, 2, 1), (1, 3, 1)] (s0, sieve0) =
     Inr (\<lparr>heap =
            [\<lparr>wheelPrimes = [(1, 1, 0), (2, 2, 1)], next_m = None\<rparr>,
             \<lparr>wheelPrimes = [(1, 0, 1), (1, 3, 0)], next_m = None\<rparr>,
             \<lparr>wheelPrimes = [(2, 2, 0)], next_m = None\<rparr>,
             \<lparr>wheelPrimes = [], next_m = None\<rparr>,
             \<lparr>wheelPrimes = [(1, 3, 1)], next_m = Some 0\<rparr>,
             \<lparr>wheelPrimes = [], next_m = Some 1\<rparr>],
           lists_m = [Some 4, Some 5, Some 2, Some 3], stock_m = None,
           pointers_m = [0, 2, 4], log2SieveSize_m = 2, moduloSieveSize_m = 3\<rparr>,
          [255, 254, 253, 253])"
proof -
  let ?r = "(\<lparr>heap =
            [\<lparr>wheelPrimes = [(1, 1, 0), (2, 2, 1)], next_m = None\<rparr>,
             \<lparr>wheelPrimes = [(1, 0, 1), (1, 3, 0)], next_m = None\<rparr>,
             \<lparr>wheelPrimes = [(2, 2, 0)], next_m = None\<rparr>,
             \<lparr>wheelPrimes = [], next_m = None\<rparr>,
             \<lparr>wheelPrimes = [(1, 3, 1)], next_m = Some 0\<rparr>,
             \<lparr>wheelPrimes = [], next_m = Some (1::nat)\<rparr>],
           lists_m = [Some 4, Some 5, Some 2, Some 3], stock_m = None,
           pointers_m = [0, 2, 4], log2SieveSize_m = 2, moduloSieveSize_m = 3\<rparr> :: 32 EratBig,
          [255, 254, 253, 253] :: sieve)"
  have "crossOff_naive cfg0 [(1, 1, 0), (2, 2, 1), (1, 3, 1)] (s0, sieve0) = Inr ?r"
    by (simp add: crossOff_one_eq unsetBit_def cfg0_def s0_def sieve0_def store_or_push_def
        Bucket_store_def pushBucket_def new_slab_def Bucket_setNext_def Let_def)
  then show ?thesis
    using crossOff_unrolled_is_naive[of cfg0 "[(1, 1, 0), (2, 2, 1), (1, 3, 1)]" s0 sieve0 ?r]
    by (simp only:)
qed

end
